theory Spec2Isabelle
  imports Complex_Main "HOL-Library.Product_Lexorder"
begin

section \<open>The structural HTML differ (differ.py)\<close>

text \<open>
  A shallow embedding of \<^verbatim>\<open>src/differ.py\<close>. Conventions of the model:
  \<^item> Python \<^verbatim>\<open>float\<close> values are idealised as exact \<^typ>\<open>real\<close> numbers; the decimal
    literals \<^verbatim>\<open>0.40\<close>, \<^verbatim>\<open>0.30\<close>, ... are the rationals they denote. Where a property
    depends on the rounding (the match ratio multiplied back, claim C5), the double
    arithmetic is modelled as such (\<open>double_round\<close>, \<open>ratio_float\<close>).
  \<^item> The parsed document (a BeautifulSoup tree) is a \<^theory_text>\<open>datatype\<close> of element
    nodes and text nodes; \<^verbatim>\<open>find\<close> and \<^verbatim>\<open>find_all\<close> search the descendants in
    document order (pre-order), as the parser library does.
  \<^item> \<^verbatim>\<open>difflib.SequenceMatcher\<close> is transcribed from the standard library module
    \<^verbatim>\<open>Lib/difflib.py\<close>, with the constructor arguments the source passes:
    \<^verbatim>\<open>isjunk=None\<close> and the default \<^verbatim>\<open>autojunk=True\<close>.
  \<^item> \<^verbatim>\<open>diff_score\<close> takes the two parsed documents; reading and parsing the files
    (\<^verbatim>\<open>parse_html\<close>) lies outside the model.
\<close>

subsection \<open>Constants\<close>

definition LANDMARK_TAGS :: "string set" where
  "LANDMARK_TAGS = {''header'', ''nav'', ''main'', ''aside'', ''footer'', ''section'', ''article''}"

definition IGNORED_TAGS :: "string set" where
  "IGNORED_TAGS = {''script'', ''style'', ''link'', ''meta'', ''noscript'', ''template''}"

definition LANDMARK_WEIGHT :: real where "LANDMARK_WEIGHT = 40 / 100"
definition SKELETON_WEIGHT :: real where "SKELETON_WEIGHT = 60 / 100"

definition TAG_WEIGHT :: real where "TAG_WEIGHT = 30 / 100"
definition CLASS_WEIGHT :: real where "CLASS_WEIGHT = 30 / 100"
definition ID_WEIGHT :: real where "ID_WEIGHT = 20 / 100"
definition CHILD_COUNT_WEIGHT :: real where "CHILD_COUNT_WEIGHT = 20 / 100"

subsection \<open>The parse tree and the node profile\<close>

text \<open>
  An attribute value of the parser is a single string or (for multi-valued attributes
  such as \<^verbatim>\<open>class\<close>) a list of strings; \<^verbatim>\<open>element.get\<close> is the lookup in the
  attribute dictionary and yields \<^verbatim>\<open>None\<close> for an absent key.
\<close>

datatype attr_value = AttrStr string | AttrList "string list"

datatype node =
    is_Tag: Tag (name: string) (attrs: "string \<rightharpoonup> attr_value") (children: "node list")
  | NavigableString string

text \<open>
  \<^verbatim>\<open>child_count\<close> is computed as \<^verbatim>\<open>sum(1 for c in element.children if isinstance(c, Tag))\<close>,
  the length of a filtered list, so the field holds a natural number.
\<close>

record NodeProfile =
  tag :: string
  id_attr :: string
  classes :: "string list"
  child_count :: nat

fun descendants :: "node \<Rightarrow> node list" where
  "descendants (Tag n ats cs) = concat (map (\<lambda>c. c # descendants c) cs)"
| "descendants (NavigableString s) = []"

definition find_all :: "string set \<Rightarrow> node \<Rightarrow> node list" where
  "find_all names soup = filter (\<lambda>t. is_Tag t \<and> name t \<in> names) (descendants soup)"

definition find_first :: "string \<Rightarrow> node \<Rightarrow> node option" where
  "find_first nm soup = List.find (\<lambda>t. is_Tag t \<and> name t = nm) (descendants soup)"

definition extract_landmarks :: "node \<Rightarrow> string list" where
  "extract_landmarks soup = map name (filter is_Tag (find_all LANDMARK_TAGS soup))"

definition make_profile :: "node \<Rightarrow> NodeProfile" where
  "make_profile element =
     (let id_raw = attrs element ''id'';
          class_raw = attrs element ''class''
      in \<lparr> tag = name element,
           id_attr = (case id_raw of Some (AttrStr s) \<Rightarrow> s | _ \<Rightarrow> ''''),
           classes = (case class_raw of Some (AttrList l) \<Rightarrow> l | _ \<Rightarrow> []),
           child_count = length (filter is_Tag (children element)) \<rparr>)"

fun grandchild_loop :: "node list \<Rightarrow> NodeProfile list \<Rightarrow> NodeProfile list" where
  "grandchild_loop [] profiles = profiles"
| "grandchild_loop (grandchild # rest) profiles =
     (if \<not> is_Tag grandchild \<or> name grandchild \<in> IGNORED_TAGS
      then grandchild_loop rest profiles
      else grandchild_loop rest (profiles @ [make_profile grandchild]))"

fun child_loop :: "node list \<Rightarrow> NodeProfile list \<Rightarrow> NodeProfile list" where
  "child_loop [] profiles = profiles"
| "child_loop (child # rest) profiles =
     (if \<not> is_Tag child \<or> name child \<in> IGNORED_TAGS
      then child_loop rest profiles
      else child_loop rest
             (grandchild_loop (children child) (profiles @ [make_profile child])))"

definition extract_skeleton :: "node \<Rightarrow> NodeProfile list" where
  "extract_skeleton soup =
     (case find_first ''body'' soup of
        None \<Rightarrow> []
      | Some body \<Rightarrow> if \<not> is_Tag body then [] else child_loop (children body) [])"

subsection \<open>The sequence matcher of difflib\<close>

text \<open>
  \<^verbatim>\<open>__chain_b\<close>: \<^verbatim>\<open>b2j\<close> maps each element of \<^verbatim>\<open>b\<close> to the ascending list of its
  indices. No element is junk (\<^verbatim>\<open>isjunk\<close> is \<^verbatim>\<open>None\<close>, so \<^verbatim>\<open>bjunk\<close> stays empty);
  with \<^verbatim>\<open>autojunk\<close> on and \<^verbatim>\<open>len(b) >= 200\<close>, every element with more than
  \<^verbatim>\<open>len(b) // 100 + 1\<close> occurrences is "popular" and is deleted from \<^verbatim>\<open>b2j\<close>.
\<close>

definition b2j_add :: "nat \<times> 'a \<Rightarrow> ('a \<rightharpoonup> nat list) \<Rightarrow> ('a \<rightharpoonup> nat list)" where
  "b2j_add p m = (case p of (i, elt) \<Rightarrow>
     m(elt \<mapsto> (case m elt of None \<Rightarrow> [] | Some indices \<Rightarrow> indices) @ [i]))"

definition purge_popular :: "nat \<Rightarrow> ('a \<rightharpoonup> nat list) \<Rightarrow> ('a \<rightharpoonup> nat list)" where
  "purge_popular n m =
     (if n \<ge> 200
      then (let ntest = n div 100 + 1
            in (\<lambda>elt. case m elt of
                         None \<Rightarrow> None
                       | Some idxs \<Rightarrow> if length idxs > ntest then None else Some idxs))
      else m)"

definition chain_b :: "'a list \<Rightarrow> ('a \<rightharpoonup> nat list)" where
  "chain_b b = purge_popular (length b) (fold b2j_add (enumerate 0 b) Map.empty)"

definition isbjunk :: "'a \<Rightarrow> bool" where
  "isbjunk x = False"

text \<open>\<^verbatim>\<open>j2len.get(j-1, 0)\<close>: the key \<^verbatim>\<open>-1\<close> is never present.\<close>

definition j2lenget :: "(nat \<rightharpoonup> nat) \<Rightarrow> nat \<Rightarrow> nat" where
  "j2lenget j2len j =
     (if j = 0 then 0 else (case j2len (j - 1) of None \<Rightarrow> 0 | Some v \<Rightarrow> v))"

type_synonym match = "nat \<times> nat \<times> nat"

text \<open>
  The inner loop of \<^verbatim>\<open>find_longest_match\<close> over the indices \<^verbatim>\<open>j\<close> of \<^verbatim>\<open>a[i]\<close> in
  \<^verbatim>\<open>b\<close>; the state is \<^verbatim>\<open>(newj2len, besti, bestj, bestsize)\<close>. The run length \<^verbatim>\<open>k\<close>
  never exceeds \<^verbatim>\<open>i + 1\<close> and \<^verbatim>\<open>j + 1\<close> (lemma \<open>inner_loop_inv\<close> below), so
  \<^verbatim>\<open>i-k+1\<close> and \<^verbatim>\<open>j-k+1\<close> are the natural numbers written here.
\<close>

fun inner_loop ::
  "(nat \<rightharpoonup> nat) \<Rightarrow> nat \<Rightarrow> nat \<Rightarrow> nat \<Rightarrow> nat list \<Rightarrow> (nat \<rightharpoonup> nat) \<times> match \<Rightarrow> (nat \<rightharpoonup> nat) \<times> match"
where
  "inner_loop j2len i blo bhi [] st = st"
| "inner_loop j2len i blo bhi (j # js) (newj2len, besti, bestj, bestsize) =
     (if j < blo then inner_loop j2len i blo bhi js (newj2len, besti, bestj, bestsize)
      else if j \<ge> bhi then (newj2len, besti, bestj, bestsize)
      else (let k = j2lenget j2len j + 1
            in inner_loop j2len i blo bhi js
                 (newj2len(j \<mapsto> k),
                  if k > bestsize then (i + 1 - k, j + 1 - k, k) else (besti, bestj, bestsize))))"

fun outer_loop ::
  "'a list \<Rightarrow> ('a \<rightharpoonup> nat list) \<Rightarrow> nat \<Rightarrow> nat \<Rightarrow> nat list \<Rightarrow> (nat \<rightharpoonup> nat) \<times> match \<Rightarrow> (nat \<rightharpoonup> nat) \<times> match"
where
  "outer_loop a b2j blo bhi [] st = st"
| "outer_loop a b2j blo bhi (i # rest) (j2len, best) =
     outer_loop a b2j blo bhi rest
       (inner_loop j2len i blo bhi (case b2j (a ! i) of None \<Rightarrow> [] | Some js \<Rightarrow> js)
          (Map.empty, best))"

text \<open>
  The four \<^verbatim>\<open>while\<close> loops that extend the best match: backwards and forwards over
  elements satisfying \<open>ok\<close> (first "not junk", then "junk").
\<close>

function extend_back ::
  "('a \<Rightarrow> bool) \<Rightarrow> 'a list \<Rightarrow> 'a list \<Rightarrow> nat \<Rightarrow> nat \<Rightarrow> match \<Rightarrow> match"
where
  "extend_back ok a b alo blo (besti, bestj, bestsize) =
     (if besti > alo \<and> bestj > blo \<and> ok (b ! (bestj - 1)) \<and> a ! (besti - 1) = b ! (bestj - 1)
      then extend_back ok a b alo blo (besti - 1, bestj - 1, bestsize + 1)
      else (besti, bestj, bestsize))"
  by pat_completeness auto
termination
  by (relation "measure (\<lambda>(ok, a, b, alo, blo, besti, bestj, bestsize). besti)") auto

function extend_fwd ::
  "('a \<Rightarrow> bool) \<Rightarrow> 'a list \<Rightarrow> 'a list \<Rightarrow> nat \<Rightarrow> nat \<Rightarrow> match \<Rightarrow> match"
where
  "extend_fwd ok a b ahi bhi (besti, bestj, bestsize) =
     (if besti + bestsize < ahi \<and> bestj + bestsize < bhi \<and> ok (b ! (bestj + bestsize))
         \<and> a ! (besti + bestsize) = b ! (bestj + bestsize)
      then extend_fwd ok a b ahi bhi (besti, bestj, bestsize + 1)
      else (besti, bestj, bestsize))"
  by pat_completeness auto
termination
  by (relation "measure (\<lambda>(ok, a, b, ahi, bhi, besti, bestj, bestsize). ahi - (besti + bestsize))") auto

definition find_longest_match ::
  "'a list \<Rightarrow> 'a list \<Rightarrow> ('a \<rightharpoonup> nat list) \<Rightarrow> nat \<Rightarrow> nat \<Rightarrow> nat \<Rightarrow> nat \<Rightarrow> match"
where
  "find_longest_match a b b2j alo ahi blo bhi =
     (let best0 = snd (outer_loop a b2j blo bhi [alo..<ahi] (Map.empty, (alo, blo, 0)));
          best1 = extend_back (\<lambda>x. \<not> isbjunk x) a b alo blo best0;
          best2 = extend_fwd (\<lambda>x. \<not> isbjunk x) a b ahi bhi best1;
          best3 = extend_back isbjunk a b alo blo best2;
          best4 = extend_fwd isbjunk a b ahi bhi best3
      in best4)"

declare extend_back.simps [simp del] extend_fwd.simps [simp del]

subsection \<open>The longest match lies inside the searched window\<close>

text \<open>
  These bounds are what makes the work-list loop of \<^verbatim>\<open>get_matching_blocks\<close> terminate:
  every block pushed on the queue is strictly smaller than the block it was cut from.
\<close>

definition best_ok :: "nat \<Rightarrow> nat \<Rightarrow> nat \<Rightarrow> nat \<Rightarrow> match \<Rightarrow> bool" where
  "best_ok alo ahi blo bhi m = (case m of (i, j, k) \<Rightarrow>
     (k = 0 \<and> i = alo \<and> j = blo) \<or> (0 < k \<and> alo \<le> i \<and> i + k \<le> ahi \<and> blo \<le> j \<and> j + k \<le> bhi))"

definition j2len_ok :: "nat \<Rightarrow> nat \<Rightarrow> nat \<Rightarrow> (nat \<rightharpoonup> nat) \<Rightarrow> bool" where
  "j2len_ok rows blo bhi j2len = (\<forall>j v. j2len j = Some v \<longrightarrow> blo \<le> j \<and> j < bhi \<and> v + blo \<le> j + 1 \<and> v \<le> rows)"

lemma j2lenget_bound:
  assumes "j2len_ok rows blo bhi j2len" "blo \<le> j"
  shows "j2lenget j2len j + blo \<le> j \<and> j2lenget j2len j \<le> rows"
  using assms by (auto simp: j2lenget_def j2len_ok_def split: option.splits) fastforce+

lemma inner_loop_inv:
  assumes "j2len_ok (i - alo) blo bhi j2len" "alo \<le> i" "i < ahi"
    "j2len_ok (i + 1 - alo) blo bhi (fst st)" "best_ok alo ahi blo bhi (snd st)"
  shows "j2len_ok (i + 1 - alo) blo bhi (fst (inner_loop j2len i blo bhi js st))
       \<and> best_ok alo ahi blo bhi (snd (inner_loop j2len i blo bhi js st))"
  using assms(4,5)
proof (induction js arbitrary: st)
  case Nil
  then show ?case by simp
next
  case (Cons j js)
  obtain new besti bestj bestsize where st: "st = (new, besti, bestj, bestsize)"
    by (cases st) auto
  consider (lo) "j < blo" | (hi) "\<not> j < blo" "j \<ge> bhi" | (mid) "blo \<le> j" "j < bhi"
    by linarith
  then show ?case
  proof cases
    case lo
    then have "inner_loop j2len i blo bhi (j # js) st = inner_loop j2len i blo bhi js st"
      by (simp add: st)
    then show ?thesis using Cons.IH[OF Cons.prems] by simp
  next
    case hi
    then have "inner_loop j2len i blo bhi (j # js) st = st"
      by (simp add: st)
    then show ?thesis using Cons.prems by simp
  next
    case mid
    define k where "k = j2lenget j2len j + 1"
    from j2lenget_bound[OF assms(1) mid(1)] have kb: "k + blo \<le> j + 1" "k \<le> i - alo + 1" "0 < k"
      by (auto simp: k_def)
    let ?st' = "(new(j \<mapsto> k), if k > bestsize then (i + 1 - k, j + 1 - k, k) else (besti, bestj, bestsize))"
    have "j2len_ok (i + 1 - alo) blo bhi new" using Cons.prems(1) by (simp add: st)
    then have 1: "j2len_ok (i + 1 - alo) blo bhi (fst ?st')"
      using kb mid assms(2) unfolding j2len_ok_def by (simp add: Suc_diff_le)
    have "best_ok alo ahi blo bhi (besti, bestj, bestsize)" using Cons.prems(2) by (simp add: st)
    moreover have "best_ok alo ahi blo bhi (i + 1 - k, j + 1 - k, k)"
      using kb mid assms(2,3) unfolding best_ok_def by (simp, arith)
    ultimately have 2: "best_ok alo ahi blo bhi (snd ?st')" by simp
    have "inner_loop j2len i blo bhi (j # js) st = inner_loop j2len i blo bhi js ?st'"
      using mid by (simp add: st k_def Let_def)
    then show ?thesis using Cons.IH[OF 1 2] by simp
  qed
qed

lemma j2len_ok_empty: "j2len_ok r blo bhi Map.empty"
  by (simp add: j2len_ok_def)

lemma outer_loop_inv:
  assumes "j2len_ok (lo - alo) blo bhi (fst st)" "alo \<le> lo" "best_ok alo ahi blo bhi (snd st)"
  shows "best_ok alo ahi blo bhi (snd (outer_loop a b2j blo bhi [lo..<ahi] st))"
  using assms
proof (induction "ahi - lo" arbitrary: lo st)
  case 0
  then show ?case by simp
next
  case (Suc n)
  then have lt: "lo < ahi" by simp
  obtain j2len best where st: "st = (j2len, best)" by (cases st) auto
  let ?st' = "inner_loop j2len lo blo bhi (case b2j (a ! lo) of None \<Rightarrow> [] | Some js \<Rightarrow> js) (Map.empty, best)"
  have inv: "j2len_ok (lo + 1 - alo) blo bhi (fst ?st') \<and> best_ok alo ahi blo bhi (snd ?st')"
    using inner_loop_inv[of lo alo blo bhi j2len ahi "(Map.empty, best)"] Suc.prems lt
    by (simp add: st j2len_ok_empty)
  have "outer_loop a b2j blo bhi [lo..<ahi] st = outer_loop a b2j blo bhi [Suc lo..<ahi] ?st'"
    using lt by (subst upt_conv_Cons) (simp_all add: st)
  moreover have "best_ok alo ahi blo bhi (snd (outer_loop a b2j blo bhi [Suc lo..<ahi] ?st'))"
  proof (rule Suc.hyps(1))
    show "n = ahi - Suc lo" using Suc.hyps(2) by simp
    show "j2len_ok (Suc lo - alo) blo bhi (fst ?st')" using inv by simp
    show "alo \<le> Suc lo" using Suc.prems(2) by simp
    show "best_ok alo ahi blo bhi (snd ?st')" using inv by simp
  qed
  ultimately show ?case by simp
qed

lemma extend_back_inv:
  "best_ok alo ahi blo bhi m \<Longrightarrow> best_ok alo ahi blo bhi (extend_back ok a b alo blo m)"
proof (induction ok a b alo blo m rule: extend_back.induct)
  case (1 ok a b alo blo besti bestj bestsize)
  show ?case
  proof (cases "besti > alo \<and> bestj > blo \<and> ok (b ! (bestj - 1)) \<and> a ! (besti - 1) = b ! (bestj - 1)")
    case True
    have "best_ok alo ahi blo bhi (besti - 1, bestj - 1, bestsize + 1)"
      using True "1.prems" unfolding best_ok_def by (simp, arith)
    from "1.IH"[OF True this] True show ?thesis by (subst extend_back.simps) simp
  next
    case False
    have "extend_back ok a b alo blo (besti, bestj, bestsize) = (besti, bestj, bestsize)"
      by (subst extend_back.simps) (simp only: False if_False)
    then show ?thesis using "1.prems" by simp
  qed
qed

lemma extend_fwd_inv:
  "best_ok alo ahi blo bhi m \<Longrightarrow> best_ok alo ahi blo bhi (extend_fwd ok a b ahi bhi m)"
proof (induction ok a b ahi bhi m rule: extend_fwd.induct)
  case (1 ok a b ahi bhi besti bestj bestsize)
  show ?case
  proof (cases "besti + bestsize < ahi \<and> bestj + bestsize < bhi \<and> ok (b ! (bestj + bestsize))
         \<and> a ! (besti + bestsize) = b ! (bestj + bestsize)")
    case True
    have "best_ok alo ahi blo bhi (besti, bestj, bestsize + 1)"
      using True "1.prems" unfolding best_ok_def by (simp, arith)
    from "1.IH"[OF True this] True show ?thesis by (subst extend_fwd.simps) simp
  next
    case False
    have "extend_fwd ok a b ahi bhi (besti, bestj, bestsize) = (besti, bestj, bestsize)"
      by (subst extend_fwd.simps) (simp only: False if_False)
    then show ?thesis using "1.prems" by simp
  qed
qed

lemma find_longest_match_ok:
  "best_ok alo ahi blo bhi (find_longest_match a b b2j alo ahi blo bhi)"
proof -
  have "best_ok alo ahi blo bhi (snd (outer_loop a b2j blo bhi [alo..<ahi] (Map.empty, (alo, blo, 0))))"
    by (rule outer_loop_inv) (simp_all add: j2len_ok_empty best_ok_def)
  then show ?thesis
    unfolding find_longest_match_def Let_def
    by (intro extend_fwd_inv extend_back_inv)
qed

lemma find_longest_match_bounds:
  assumes "find_longest_match a b b2j alo ahi blo bhi = (i, j, k)" "k \<noteq> 0"
  shows "alo \<le> i \<and> i + k \<le> ahi \<and> blo \<le> j \<and> j + k \<le> bhi"
  using find_longest_match_ok[of alo ahi blo bhi a b b2j] assms
  by (simp add: best_ok_def)

subsection \<open>Matching blocks, opcodes and the ratio\<close>

text \<open>
  \<^verbatim>\<open>get_matching_blocks\<close> keeps a work list of windows \<^verbatim>\<open>(alo, ahi, blo, bhi)\<close>.
  \<^verbatim>\<open>queue.pop()\<close> takes the last element of the Python list and \<^verbatim>\<open>queue.append\<close>
  adds at that end, so the head of the list below is the end of the Python list.
\<close>

type_synonym block = "nat \<times> nat \<times> nat \<times> nat"

definition block_weight :: "block \<Rightarrow> nat" where
  "block_weight q = (case q of (alo, ahi, blo, bhi) \<Rightarrow> 1 + (ahi - alo) + (bhi - blo))"

function match_loop ::
  "'a list \<Rightarrow> 'a list \<Rightarrow> ('a \<rightharpoonup> nat list) \<Rightarrow> block list \<Rightarrow> match list \<Rightarrow> match list"
where
  "match_loop a b b2j [] matching_blocks = matching_blocks"
| "match_loop a b b2j ((alo, ahi, blo, bhi) # queue) matching_blocks =
     (case find_longest_match a b b2j alo ahi blo bhi of (i, j, k) \<Rightarrow>
        if k \<noteq> 0
        then match_loop a b b2j
               ((if i + k < ahi \<and> j + k < bhi then [(i + k, ahi, j + k, bhi)] else []) @
                (if alo < i \<and> blo < j then [(alo, i, blo, j)] else []) @ queue)
               (matching_blocks @ [(i, j, k)])
        else match_loop a b b2j queue matching_blocks)"
  by pat_completeness auto
termination
proof (relation "measure (\<lambda>(a, b, b2j, queue, mbs). sum_list (map block_weight queue))", goal_cases)
  case 1
  show ?case by simp
next
  case (2 a b b2j alo ahi blo bhi queue mbs i y j k)
  then have "find_longest_match a b b2j alo ahi blo bhi = (i, j, k)" by simp
  from find_longest_match_bounds[OF this \<open>k \<noteq> 0\<close>] \<open>k \<noteq> 0\<close>
  show ?case by (simp add: block_weight_def, arith)
next
  case (3 a b b2j alo ahi blo bhi queue mbs i y j k)
  show ?case by (simp add: block_weight_def)
qed

declare match_loop.simps [simp del]

fun collapse :: "match list \<Rightarrow> match \<Rightarrow> match list \<Rightarrow> match list" where
  "collapse [] (i1, j1, k1) non_adjacent =
     (if k1 \<noteq> 0 then non_adjacent @ [(i1, j1, k1)] else non_adjacent)"
| "collapse ((i2, j2, k2) # rest) (i1, j1, k1) non_adjacent =
     (if i1 + k1 = i2 \<and> j1 + k1 = j2
      then collapse rest (i1, j1, k1 + k2) non_adjacent
      else collapse rest (i2, j2, k2)
             (if k1 \<noteq> 0 then non_adjacent @ [(i1, j1, k1)] else non_adjacent))"

definition get_matching_blocks :: "'a list \<Rightarrow> 'a list \<Rightarrow> match list" where
  "get_matching_blocks a b =
     (let la = length a; lb = length b;
          matching_blocks = sort (match_loop a b (chain_b b) [(0, la, 0, lb)] []);
          non_adjacent = collapse matching_blocks (0, 0, 0) []
      in non_adjacent @ [(la, lb, 0)])"

type_synonym opcode = "string \<times> nat \<times> nat \<times> nat \<times> nat"

fun opcodes_loop :: "match list \<Rightarrow> nat \<Rightarrow> nat \<Rightarrow> opcode list \<Rightarrow> opcode list" where
  "opcodes_loop [] i j answer = answer"
| "opcodes_loop ((ai, bj, sz) # rest) i j answer =
     (let tag' = (if i < ai \<and> j < bj then ''replace''
                 else if i < ai then ''delete''
                 else if j < bj then ''insert''
                 else '''');
          answer1 = (if tag' \<noteq> '''' then answer @ [(tag', i, ai, j, bj)] else answer);
          i' = ai + sz;
          j' = bj + sz;
          answer2 = (if sz \<noteq> 0 then answer1 @ [(''equal'', ai, i', bj, j')] else answer1)
      in opcodes_loop rest i' j' answer2)"

definition get_opcodes :: "'a list \<Rightarrow> 'a list \<Rightarrow> opcode list" where
  "get_opcodes a b = opcodes_loop (get_matching_blocks a b) 0 0 []"

definition calculate_ratio :: "nat \<Rightarrow> nat \<Rightarrow> real" where
  "calculate_ratio matches len = (if len \<noteq> 0 then 2 * real matches / real len else 1)"

definition ratio :: "'a list \<Rightarrow> 'a list \<Rightarrow> real" where
  "ratio a b =
     (let matches = sum_list (map (\<lambda>triple. snd (snd triple)) (get_matching_blocks a b))
      in calculate_ratio matches (length a + length b))"

definition landmark_diff :: "string list \<Rightarrow> string list \<Rightarrow> real" where
  "landmark_diff old new = (if old = [] \<and> new = [] then 0 else 1 - ratio old new)"

definition node_diff :: "NodeProfile \<Rightarrow> NodeProfile \<Rightarrow> real" where
  "node_diff old new =
     (let tag_diff = (if tag old = tag new then 0 else 1);
          old_classes = set (classes old);
          new_classes = set (classes new);
          class_diff = (if old_classes \<noteq> {} \<or> new_classes \<noteq> {}
                        then 1 - real (card (old_classes \<inter> new_classes))
                                 / real (card (old_classes \<union> new_classes))
                        else 0);
          id_diff = (if id_attr old = id_attr new then 0 else 1);
          max_children = max (child_count old) (child_count new);
          child_diff = (if max_children > 0
                        then real_of_int \<bar>int (child_count old) - int (child_count new)\<bar>
                             / real max_children
                        else 0)
      in tag_diff * TAG_WEIGHT + class_diff * CLASS_WEIGHT + id_diff * ID_WEIGHT
         + child_diff * CHILD_COUNT_WEIGHT)"

definition slice :: "'a list \<Rightarrow> nat \<Rightarrow> nat \<Rightarrow> 'a list" where
  "slice xs i1 i2 = drop i1 (take i2 xs)"

definition replace_step :: "NodeProfile list \<Rightarrow> NodeProfile list \<Rightarrow> nat \<Rightarrow> real \<Rightarrow> real" where
  "replace_step old_slice new_slice k total_diff =
     (if k < length old_slice \<and> k < length new_slice
      then total_diff + node_diff (old_slice ! k) (new_slice ! k)
      else total_diff + 1)"

definition score_step ::
  "NodeProfile list \<Rightarrow> NodeProfile list \<Rightarrow> opcode \<Rightarrow> real \<times> nat \<Rightarrow> real \<times> nat"
where
  "score_step old new opc st =
     (case opc of (op, i1, i2, j1, j2) \<Rightarrow>
      case st of (total_diff, total_positions) \<Rightarrow>
        if op = ''equal'' then (total_diff, total_positions + (i2 - i1))
        else if op = ''replace'' then
          (let old_slice = slice old i1 i2;
               new_slice = slice new j1 j2;
               count = max (length old_slice) (length new_slice)
           in (fold (replace_step old_slice new_slice) [0..<count] total_diff,
               total_positions + count))
        else if op = ''insert'' then
          (let count = j2 - j1 in (total_diff + real count, total_positions + count))
        else if op = ''delete'' then
          (let count = i2 - i1 in (total_diff + real count, total_positions + count))
        else (total_diff, total_positions))"

fun score_loop ::
  "NodeProfile list \<Rightarrow> NodeProfile list \<Rightarrow> opcode list \<Rightarrow> real \<times> nat \<Rightarrow> real \<times> nat"
where
  "score_loop old new [] st = st"
| "score_loop old new (opc # rest) st = score_loop old new rest (score_step old new opc st)"

definition skeleton_diff :: "NodeProfile list \<Rightarrow> NodeProfile list \<Rightarrow> real" where
  "skeleton_diff old new =
     (if old = [] \<and> new = [] then 0
      else if old = [] \<or> new = [] then 1
      else (case score_loop old new (get_opcodes old new) (0, 0) of
              (total_diff, total_positions) \<Rightarrow>
                if total_positions > 0 then total_diff / real total_positions else 0))"

definition diff_score :: "node \<Rightarrow> node \<Rightarrow> real" where
  "diff_score old_soup new_soup =
     (let l_diff = landmark_diff (extract_landmarks old_soup) (extract_landmarks new_soup);
          s_diff = skeleton_diff (extract_skeleton old_soup) (extract_skeleton new_soup)
      in l_diff * LANDMARK_WEIGHT + s_diff * SKELETON_WEIGHT)"

definition interpret_score :: "real \<Rightarrow> string" where
  "interpret_score score =
     (if score > 40 / 100 then ''Major structural rewrite detected''
      else if score > 15 / 100 then ''Significant layout modifications detected''
      else ''Minor structural changes'')"

section \<open>Properties\<close>

subsection \<open>Node distance\<close>

text \<open>
  The node distance as the specification words it: four mismatch components, weighted
  0.30, 0.30, 0.20 and 0.20.
\<close>

definition node_distance_spec :: "NodeProfile \<Rightarrow> NodeProfile \<Rightarrow> real" where
  "node_distance_spec old new =
     (if tag old \<noteq> tag new then 1 else 0) * (30 / 100)
   + (if set (classes old) = {} \<and> set (classes new) = {} then 0
      else 1 - real (card (set (classes old) \<inter> set (classes new)))
               / real (card (set (classes old) \<union> set (classes new)))) * (30 / 100)
   + (if id_attr old \<noteq> id_attr new then 1 else 0) * (20 / 100)
   + (if max (child_count old) (child_count new) > 0
      then \<bar>real (child_count old) - real (child_count new)\<bar>
           / real (max (child_count old) (child_count new))
      else 0) * (20 / 100)"

lemmas weight_defs = TAG_WEIGHT_def CLASS_WEIGHT_def ID_WEIGHT_def CHILD_COUNT_WEIGHT_def

lemma node_diff_eq_spec: "node_diff old new = node_distance_spec old new"
  by (auto simp: node_diff_def node_distance_spec_def Let_def weight_defs)

lemma class_mismatch_bounds:
  fixes A B :: "'a set"
  assumes "finite A" "finite B"
  shows "0 \<le> 1 - real (card (A \<inter> B)) / real (card (A \<union> B))"
    and "1 - real (card (A \<inter> B)) / real (card (A \<union> B)) \<le> 1"
proof -
  have "card (A \<inter> B) \<le> card (A \<union> B)"
    using assms by (intro card_mono) auto
  then have "real (card (A \<inter> B)) / real (card (A \<union> B)) \<le> 1"
    by (auto simp: divide_le_eq_1)
  then show "0 \<le> 1 - real (card (A \<inter> B)) / real (card (A \<union> B))" by simp
  show "1 - real (card (A \<inter> B)) / real (card (A \<union> B)) \<le> 1" by simp
qed

lemma child_mismatch_bounds:
  fixes c d :: nat
  shows "0 \<le> real_of_int \<bar>int c - int d\<bar> / real (max c d)"
    and "real_of_int \<bar>int c - int d\<bar> / real (max c d) \<le> 1"
proof -
  show "0 \<le> real_of_int \<bar>int c - int d\<bar> / real (max c d)" by simp
  have "\<bar>int c - int d\<bar> \<le> int (max c d)" by linarith
  then have "real_of_int \<bar>int c - int d\<bar> \<le> real (max c d)"
    by (metis of_int_le_iff of_int_of_nat_eq)
  then show "real_of_int \<bar>int c - int d\<bar> / real (max c d) \<le> 1"
    by (auto simp: divide_le_eq_1)
qed

lemma node_diff_bounds: "0 \<le> node_diff old new \<and> node_diff old new \<le> 1"
proof -
  define cd where "cd = (if set (classes old) \<noteq> {} \<or> set (classes new) \<noteq> {}
                        then 1 - real (card (set (classes old) \<inter> set (classes new)))
                                 / real (card (set (classes old) \<union> set (classes new)))
                        else 0)"
  define ch where "ch = (if max (child_count old) (child_count new) > 0
                        then real_of_int \<bar>int (child_count old) - int (child_count new)\<bar>
                             / real (max (child_count old) (child_count new))
                        else 0)"
  define td :: real where "td = (if tag old = tag new then 0 else 1)"
  define idd :: real where "idd = (if id_attr old = id_attr new then 0 else 1)"
  have cd: "0 \<le> cd" "cd \<le> 1"
    using class_mismatch_bounds[of "set (classes old)" "set (classes new)"]
    by (auto simp: cd_def)
  have ch: "0 \<le> ch" "ch \<le> 1"
    using child_mismatch_bounds[of "child_count old" "child_count new"]
    by (auto simp: ch_def)
  have td: "0 \<le> td" "td \<le> 1" by (auto simp: td_def)
  have idd: "0 \<le> idd" "idd \<le> 1" by (auto simp: idd_def)
  have eq: "node_diff old new = td * (30/100) + cd * (30/100) + idd * (20/100) + ch * (20/100)"
    by (simp add: node_diff_def Let_def weight_defs cd_def ch_def td_def idd_def)
  show ?thesis unfolding eq using cd ch td idd by simp
qed

text \<open>
  Claim C6. For every pair of node profiles, \<open>node_diff\<close> is exactly the weighted sum of
  the four mismatch components of the specification (tag 0.30, class Jaccard distance
  0.30, id 0.20, relative child-count difference 0.20), and the result lies in [0, 1].
\<close>

theorem node_diff_formula:
  "node_diff old new = node_distance_spec old new
   \<and> 0 \<le> node_diff old new \<and> node_diff old new \<le> 1"
  using node_diff_eq_spec node_diff_bounds by simp

lemma node_distance_spec_example:
  "node_distance_spec
     \<lparr>tag = ''div'', id_attr = '''', classes = [''foo'', ''bar''], child_count = 0\<rparr>
     \<lparr>tag = ''div'', id_attr = '''', classes = [''foo'', ''baz''], child_count = 0\<rparr> = 1 / 5"
  by code_simp

theorem node_diff_formula_witness:
  "node_diff \<lparr>tag = ''div'', id_attr = '''', classes = [''foo'', ''bar''], child_count = 0\<rparr>
             \<lparr>tag = ''div'', id_attr = '''', classes = [''foo'', ''baz''], child_count = 0\<rparr> = 1 / 5"
  using node_diff_formula[of
      "\<lparr>tag = ''div'', id_attr = '''', classes = [''foo'', ''bar''], child_count = 0\<rparr>"
      "\<lparr>tag = ''div'', id_attr = '''', classes = [''foo'', ''baz''], child_count = 0\<rparr>"]
  by (simp only: node_distance_spec_example)

lemma node_diff_self: "node_diff p p = 0"
proof -
  have "finite (set (classes p))" by simp
  then have "set (classes p) \<noteq> {} \<Longrightarrow> card (set (classes p)) \<noteq> 0"
    by (simp only: card_eq_0_iff) simp
  then show ?thesis
    by (auto simp: node_diff_def Let_def)
qed

text \<open>
  Claim C9. \<open>node_diff\<close> depends on the class tuples only through their sets: replacing
  the classes of either argument by any list with the same set of tokens (a permutation,
  or one with repeated entries) leaves the result unchanged; and \<open>node_diff p p = 0\<close>.
\<close>

theorem node_diff_classes_as_sets:
  assumes "set cs = set cs'"
  shows "node_diff (p\<lparr>classes := cs\<rparr>) q = node_diff (p\<lparr>classes := cs'\<rparr>) q
       \<and> node_diff q (p\<lparr>classes := cs\<rparr>) = node_diff q (p\<lparr>classes := cs'\<rparr>)
       \<and> node_diff p p = 0"
  using assms by (simp add: node_diff_def Let_def node_diff_self)

theorem node_diff_classes_as_sets_witness:
  "set [''a'', ''b''] = set [''b'', ''a'', ''a'']
   \<and> node_diff \<lparr>tag = ''div'', id_attr = ''x'', classes = [''a'', ''b''], child_count = 2\<rparr>
                \<lparr>tag = ''div'', id_attr = ''x'', classes = [''a''], child_count = 1\<rparr>
     = node_diff \<lparr>tag = ''div'', id_attr = ''x'', classes = [''b'', ''a'', ''a''], child_count = 2\<rparr>
                \<lparr>tag = ''div'', id_attr = ''x'', classes = [''a''], child_count = 1\<rparr>"
proof -
  have h: "set [''a'', ''b''] = set [''b'', ''a'', ''a'']" by auto
  from node_diff_classes_as_sets[OF h,
      of "\<lparr>tag = ''div'', id_attr = ''x'', classes = [], child_count = 2\<rparr>"
         "\<lparr>tag = ''div'', id_attr = ''x'', classes = [''a''], child_count = 1\<rparr>"]
  show ?thesis using h by simp
qed

subsection \<open>Equality of profiles\<close>

lemma chain_b_single: "chain_b [q] = [q \<mapsto> [0]]"
  by (simp add: chain_b_def purge_popular_def b2j_add_def)

lemma flm_single:
  "find_longest_match [p] [q] (chain_b [q]) 0 (Suc 0) 0 (Suc 0)
     = (if p = q then (0, 0, 1) else (0, 0, 0))"
  by (simp add: find_longest_match_def chain_b_single j2lenget_def Let_def
        extend_back.simps extend_fwd.simps isbjunk_def)

lemma get_opcodes_single:
  "get_opcodes [p] [q] = (if p = q then [(''equal'', 0, 1, 0, 1)] else [(''replace'', 0, 1, 0, 1)])"
  by (simp add: get_opcodes_def get_matching_blocks_def match_loop.simps flm_single Let_def)

text \<open>
  Claim C8, as stated (profiles are equal iff the fields match with the classes compared
  as sets), fails: the frozen dataclass compares the \<open>classes\<close> tuples, so two profiles
  whose class tokens differ only in order are different.
\<close>

theorem profile_equality_sets_counterexample:
  "\<not> ((\<lparr>tag = ''div'', id_attr = '''', classes = [''a'', ''b''], child_count = 0\<rparr>
        = \<lparr>tag = ''div'', id_attr = '''', classes = [''b'', ''a''], child_count = 0\<rparr>)
       \<longleftrightarrow> (set [''a'', ''b''] = set [''b'', ''a'']))"
  by auto

text \<open>
  Claim C8, amended. Two profiles are equal iff all four fields match, the classes
  compared as tuples (same tokens, same order, same multiplicity); and this is the
  equality of the aligner: a one-element sequence against a one-element sequence is a
  single Equal region exactly when the two profiles are equal.
\<close>

theorem profile_equality:
  fixes p q :: NodeProfile
  shows "(p = q \<longleftrightarrow> tag p = tag q \<and> id_attr p = id_attr q \<and> classes p = classes q
                   \<and> child_count p = child_count q)
       \<and> (get_opcodes [p] [q] = [(''equal'', 0, 1, 0, 1)] \<longleftrightarrow> p = q)"
  by (auto simp: get_opcodes_single)

subsection \<open>Degraded inputs of the skeleton score\<close>

lemma extract_skeleton_no_body:
  "find_first ''body'' soup = None \<Longrightarrow> extract_skeleton soup = []"
  by (simp add: extract_skeleton_def)

text \<open>
  Claim C7. \<open>skeleton_diff\<close> is total (no branch of it can raise: the only division is
  guarded); on two empty sequences the score is exactly 0, and when exactly one of the
  sequences is empty (as for a document without a body element, lemma
  \<open>extract_skeleton_no_body\<close>) it is exactly 1.
\<close>

theorem skeleton_diff_degraded:
  "skeleton_diff [] [] = 0 \<and> skeleton_diff [] (p # ps) = 1 \<and> skeleton_diff (p # ps) [] = 1"
  by (simp add: skeleton_diff_def)

subsection \<open>Combiner and interpreter\<close>

text \<open>
  Claim C3, as stated, fails on the returned strings: the labels of the source start with
  a capital letter.
\<close>

theorem interpret_score_lowercase_counterexample:
  "interpret_score (1 / 2) \<noteq> ''major structural rewrite detected''"
  by (simp add: interpret_score_def)

text \<open>
  Claim C3, amended. The combined score is the landmark score times 0.40 plus the
  skeleton score times 0.60, and the interpretation, first match first, is
  "Major structural rewrite detected" above 0.40, "Significant layout modifications
  detected" above 0.15, and "Minor structural changes" otherwise.
\<close>

theorem combiner_and_interpreter:
  "diff_score old_soup new_soup =
     landmark_diff (extract_landmarks old_soup) (extract_landmarks new_soup) * (40 / 100)
     + skeleton_diff (extract_skeleton old_soup) (extract_skeleton new_soup) * (60 / 100)
   \<and> interpret_score score =
     (if score > 40 / 100 then ''Major structural rewrite detected''
      else if score > 15 / 100 then ''Significant layout modifications detected''
      else ''Minor structural changes'')"
  by (simp add: diff_score_def Let_def LANDMARK_WEIGHT_def SKELETON_WEIGHT_def interpret_score_def)

subsection \<open>The skeleton comes from the first body element\<close>

text \<open>
  \<open>keep\<close> is the filter both loops of \<^verbatim>\<open>extract_skeleton\<close> apply (an element whose
  tag is not ignored), and \<open>two_levels\<close> lists the profiles of the kept children of an
  element, each followed by those of its own kept children.
\<close>

definition keep :: "node \<Rightarrow> bool" where
  "keep n \<longleftrightarrow> is_Tag n \<and> name n \<notin> IGNORED_TAGS"

definition two_levels :: "node \<Rightarrow> NodeProfile list" where
  "two_levels body =
     concat (map (\<lambda>c. make_profile c # map make_profile (filter keep (children c)))
                 (filter keep (children body)))"

definition is_body :: "node \<Rightarrow> bool" where
  "is_body t \<longleftrightarrow> is_Tag t \<and> name t = ''body''"

definition nested_body_soup :: node where
  "nested_body_soup =
     Tag ''[document]'' Map.empty
       [Tag ''body'' Map.empty [Tag ''body'' Map.empty [Tag ''p'' Map.empty []]]]"

lemma grandchild_loop_eq:
  "grandchild_loop gs profiles = profiles @ map make_profile (filter keep gs)"
  by (induction gs arbitrary: profiles) (auto simp: keep_def)

lemma child_loop_eq:
  "child_loop cs profiles =
     profiles @ concat (map (\<lambda>c. make_profile c # map make_profile (filter keep (children c)))
                            (filter keep cs))"
  by (induction cs arbitrary: profiles) (auto simp: keep_def grandchild_loop_eq)

lemma find_Some_P: "List.find P xs = Some x \<Longrightarrow> P x"
  by (induction xs) (auto split: if_splits)

lemma extract_skeleton_eq:
  "extract_skeleton soup =
     (case find_first ''body'' soup of None \<Rightarrow> [] | Some body \<Rightarrow> two_levels body)"
  by (auto simp: extract_skeleton_def two_levels_def child_loop_eq find_first_def
           split: option.splits dest: find_Some_P)

lemma find_append:
  "List.find P (xs @ ys) = (case List.find P xs of None \<Rightarrow> List.find P ys | Some x \<Rightarrow> Some x)"
  by (induction xs) auto

lemma find_None: "(\<forall>x \<in> set xs. \<not> P x) \<Longrightarrow> List.find P xs = None"
  by (induction xs) auto

lemma find_first_sibling:
  assumes "\<forall>t \<in> set (concat (map (\<lambda>c. c # descendants c) pre)). \<not> is_body t"
  shows "find_first ''body'' (Tag r ats (pre @ Tag ''body'' bats kids # post))
           = Some (Tag ''body'' bats kids)"
proof -
  have "List.find is_body (concat (map (\<lambda>c. c # descendants c) pre)) = None"
    using assms by (rule find_None)
  then show ?thesis
    by (simp add: find_first_def find_append is_body_def[abs_def])
qed

text \<open>
  Claim C10, amended. \<open>extract_skeleton\<close> reads only the first body element in
  document order: the skeleton is exactly the two levels below that element (empty when
  there is none), so an element contributes a profile only as a kept child or grandchild
  of the first body. In particular nothing after the first body contributes: when no
  body occurs in the siblings before it, the result does not depend on the siblings
  \<open>post\<close> that follow, whatever bodies they contain.
\<close>

theorem extract_skeleton_first_body_only:
  "extract_skeleton soup =
     (case find_first ''body'' soup of None \<Rightarrow> [] | Some body \<Rightarrow> two_levels body)
   \<and> ((\<forall>t \<in> set (concat (map (\<lambda>c. c # descendants c) pre)). \<not> is_body t) \<longrightarrow>
        extract_skeleton (Tag r ats (pre @ Tag ''body'' bats kids # post))
          = two_levels (Tag ''body'' bats kids))"
  using extract_skeleton_eq find_first_sibling by (simp add: extract_skeleton_eq)


text \<open>
  Claim C10, as stated, fails when a second body element is nested directly inside the
  first: the document \<open>nested_body_soup\<close> has two body elements, the element \<open>p\<close> lies
  under the second one, and its profile is in the skeleton.
\<close>

theorem nested_body_counterexample:
  "find_all {''body''} nested_body_soup
     = [Tag ''body'' Map.empty [Tag ''body'' Map.empty [Tag ''p'' Map.empty []]],
        Tag ''body'' Map.empty [Tag ''p'' Map.empty []]]
   \<and> descendants (Tag ''body'' Map.empty [Tag ''p'' Map.empty []]) = [Tag ''p'' Map.empty []]
   \<and> extract_skeleton nested_body_soup
     = [make_profile (Tag ''body'' Map.empty [Tag ''p'' Map.empty []]),
        make_profile (Tag ''p'' Map.empty [])]"
  by (simp add: nested_body_soup_def find_all_def extract_skeleton_def find_first_def
       IGNORED_TAGS_def)

theorem extract_skeleton_first_body_only_witness:
  "extract_skeleton
     (Tag ''[document]'' Map.empty
        ([Tag ''header'' Map.empty []] @
         Tag ''body'' Map.empty [Tag ''main'' Map.empty [NavigableString ''x'', Tag ''p'' Map.empty []]] #
         [Tag ''body'' Map.empty [Tag ''div'' Map.empty []]]))
   = [\<lparr>tag = ''main'', id_attr = '''', classes = [], child_count = 1\<rparr>,
      \<lparr>tag = ''p'', id_attr = '''', classes = [], child_count = 0\<rparr>]"
proof -
  have h: "\<forall>t \<in> set (concat (map (\<lambda>c. c # descendants c) [Tag ''header'' Map.empty []])). \<not> is_body t"
    by (simp add: is_body_def)
  have v: "two_levels (Tag ''body'' Map.empty [Tag ''main'' Map.empty [NavigableString ''x'', Tag ''p'' Map.empty []]])
     = [\<lparr>tag = ''main'', id_attr = '''', classes = [], child_count = 1\<rparr>,
      \<lparr>tag = ''p'', id_attr = '''', classes = [], child_count = 0\<rparr>]"
    by (simp add: two_levels_def keep_def IGNORED_TAGS_def make_profile_def)
  have e: "extract_skeleton
     (Tag ''[document]'' Map.empty
        ([Tag ''header'' Map.empty []] @
         Tag ''body'' Map.empty [Tag ''main'' Map.empty [NavigableString ''x'', Tag ''p'' Map.empty []]] #
         [Tag ''body'' Map.empty [Tag ''div'' Map.empty []]]))
    = two_levels (Tag ''body'' Map.empty [Tag ''main'' Map.empty [NavigableString ''x'', Tag ''p'' Map.empty []]])"
    by (rule extract_skeleton_first_body_only[THEN conjunct2, THEN mp, OF h])
  show ?thesis by (simp only: e v)
qed

subsection \<open>The matching blocks are ordered and disjoint\<close>

text \<open>
  A window or a matching block is a rectangle of index ranges. The work list of
  \<^verbatim>\<open>get_matching_blocks\<close> keeps the invariant \<open>match_inv\<close>: the windows still to be
  searched and the blocks found so far are pairwise separated (one lies wholly before
  the other on both sides), every block is non-empty, and everything lies inside the
  initial window.
\<close>

definition rect_of :: "match \<Rightarrow> block" where
  "rect_of m = (case m of (i, j, k) \<Rightarrow> (i, i + k, j, j + k))"

definition before :: "block \<Rightarrow> block \<Rightarrow> bool" where
  "before r s = (case r of (alo, ahi, blo, bhi) \<Rightarrow> case s of (alo', ahi', blo', bhi') \<Rightarrow>
     ahi \<le> alo' \<and> bhi \<le> blo')"

definition sep :: "block \<Rightarrow> block \<Rightarrow> bool" where
  "sep r s \<longleftrightarrow> before r s \<or> before s r"

definition inside :: "block \<Rightarrow> block \<Rightarrow> bool" where
  "inside r w = (case r of (alo, ahi, blo, bhi) \<Rightarrow> case w of (wal, wah, wbl, wbh) \<Rightarrow>
     wal \<le> alo \<and> ahi \<le> wah \<and> wbl \<le> blo \<and> bhi \<le> wbh)"

lemma sep_sym: "sep r s \<Longrightarrow> sep s r"
  by (auto simp: sep_def)

lemma sep_inside: "sep r x \<Longrightarrow> inside r' r \<Longrightarrow> sep r' x"
  by (cases r; cases x; cases r') (auto simp: sep_def before_def inside_def)

lemma inside_trans: "inside r' r \<Longrightarrow> inside r w \<Longrightarrow> inside r' w"
  by (cases r; cases w; cases r') (auto simp: inside_def)

definition match_inv :: "block \<Rightarrow> block list \<Rightarrow> match list \<Rightarrow> bool" where
  "match_inv w queue mbs \<longleftrightarrow>
     sorted_wrt sep (queue @ map rect_of mbs)
     \<and> (\<forall>m \<in> set mbs. 0 < snd (snd m))
     \<and> (\<forall>x \<in> set (queue @ map rect_of mbs). inside x w)"

lemma match_inv_step:
  assumes inv: "match_inv w ((alo, ahi, blo, bhi) # queue) mbs"
    and flm: "find_longest_match a b b2j alo ahi blo bhi = (i, j, k)" and k: "k \<noteq> 0"
  shows "match_inv w
           ((if i + k < ahi \<and> j + k < bhi then [(i + k, ahi, j + k, bhi)] else []) @
            (if alo < i \<and> blo < j then [(alo, i, blo, j)] else []) @ queue)
           (mbs @ [(i, j, k)])"
proof -
  let ?r = "(alo, ahi, blo, bhi)"
  let ?right = "(i + k, ahi, j + k, bhi)" and ?left = "(alo, i, blo, j)" and ?m = "rect_of (i, j, k)"
  from find_longest_match_bounds[OF flm k]
  have b: "alo \<le> i" "i + k \<le> ahi" "blo \<le> j" "j + k \<le> bhi" by auto
  have ins: "inside ?right ?r" "inside ?left ?r" "inside ?m ?r"
    using b by (auto simp: inside_def rect_of_def)
  have rest: "sorted_wrt sep (queue @ map rect_of mbs)"
    and r_sep: "\<forall>y \<in> set (queue @ map rect_of mbs). sep ?r y"
    and r_in: "inside ?r w" and rest_in: "\<forall>x \<in> set (queue @ map rect_of mbs). inside x w"
    and pos: "\<forall>m \<in> set mbs. 0 < snd (snd m)"
    using inv by (auto simp: match_inv_def)
  have new_sep: "\<forall>y \<in> set (queue @ map rect_of mbs). sep ?right y \<and> sep ?left y \<and> sep ?m y"
    using r_sep ins by (blast intro: sep_inside)
  have among: "sep ?right ?left" "sep ?right ?m" "sep ?left ?m"
    using b k by (auto simp: sep_def before_def rect_of_def)
  have "sorted_wrt sep (queue @ map rect_of mbs @ [?m])"
    using rest new_sep by (auto simp: sorted_wrt_append intro: sep_sym)
  then have s1: "sorted_wrt sep (queue @ map rect_of (mbs @ [(i, j, k)]))" by simp
  have s2: "\<forall>y \<in> set (queue @ map rect_of (mbs @ [(i, j, k)])). sep ?right y \<and> sep ?left y"
    using new_sep among by auto
  have s3: "\<forall>m \<in> set (mbs @ [(i, j, k)]). 0 < snd (snd m)" using pos k by auto
  have s4: "\<forall>x \<in> set (queue @ map rect_of (mbs @ [(i, j, k)])). inside x w"
    using rest_in ins(3) r_in by (auto intro: inside_trans)
  have s5: "inside ?right w" "inside ?left w"
    using ins r_in by (blast intro: inside_trans)+
  show ?thesis
    unfolding match_inv_def using s1 s2 s3 s4 s5 among(1)
    by (auto simp del: map_append)
qed

lemma match_inv_skip:
  "match_inv w (r # queue) mbs \<Longrightarrow> match_inv w queue mbs"
  by (auto simp: match_inv_def)

lemma match_loop_inv:
  "match_inv w queue mbs \<Longrightarrow> match_inv w [] (match_loop a b b2j queue mbs)"
proof (induction a b b2j queue mbs rule: match_loop.induct)
  case (1 a b b2j mbs)
  then show ?case by (simp add: match_loop.simps)
next
  case (2 a b b2j alo ahi blo bhi queue mbs)
  obtain i j k where flm: "find_longest_match a b b2j alo ahi blo bhi = (i, j, k)"
    by (cases "find_longest_match a b b2j alo ahi blo bhi") auto
  show ?case
  proof (cases "k = 0")
    case True
    have "match_inv w [] (match_loop a b b2j queue mbs)"
      by (rule "2.IH"(2)[OF flm[symmetric] refl _ match_inv_skip[OF "2.prems"]]) (simp add: True)
    then show ?thesis using flm True by (simp add: match_loop.simps)
  next
    case False
    have "match_inv w [] (match_loop a b b2j
           ((if i + k < ahi \<and> j + k < bhi then [(i + k, ahi, j + k, bhi)] else []) @
            (if alo < i \<and> blo < j then [(alo, i, blo, j)] else []) @ queue)
           (mbs @ [(i, j, k)]))"
      by (rule "2.IH"(1)[OF flm[symmetric] refl False match_inv_step[OF "2.prems" flm False]])
    then show ?thesis using flm False by (simp add: match_loop.simps)
  qed
qed

text \<open>
  \<open>chain bs i j\<close>: the blocks follow one another from position \<open>(i, j)\<close> without
  overlap, on both sides. Sorting the blocks found gives such a chain, and collapsing
  adjacent blocks keeps it.
\<close>

fun chain :: "match list \<Rightarrow> nat \<Rightarrow> nat \<Rightarrow> bool" where
  "chain [] i j = True"
| "chain ((ai, bj, sz) # rest) i j = (i \<le> ai \<and> j \<le> bj \<and> chain rest (ai + sz) (bj + sz))"

definition m_before :: "match \<Rightarrow> match \<Rightarrow> bool" where
  "m_before x y = (case x of (i, j, k) \<Rightarrow> case y of (i', j', k') \<Rightarrow> i + k \<le> i' \<and> j + k \<le> j')"

lemma sorted_wrt_sym_pairwise:
  assumes "sorted_wrt P xs" "\<And>x y. P x y \<Longrightarrow> P y x" "x \<in> set xs" "y \<in> set xs" "x \<noteq> y"
  shows "P x y"
  using assms by (induction xs) auto

lemma sorted_wrt_irrefl_distinct:
  assumes "sorted_wrt P xs" "\<forall>x \<in> set xs. \<not> P x x"
  shows "distinct xs"
  using assms by (induction xs) auto

lemma sep_rect_of:
  "sep (rect_of x) (rect_of y) \<longleftrightarrow> m_before x y \<or> m_before y x"
  by (cases x; cases y) (auto simp: sep_def before_def rect_of_def m_before_def)

lemma m_before_less:
  assumes "m_before y x" "0 < snd (snd y)" shows "y < x"
  using assms by (cases x; cases y) (auto simp: m_before_def less_prod_def)

lemma sorted_blocks_m_before:
  assumes "match_inv w [] R"
  shows "sorted_wrt m_before (sort R)"
proof -
  have sw: "sorted_wrt (\<lambda>x y. sep (rect_of x) (rect_of y)) R"
    and pos: "\<forall>m \<in> set R. 0 < snd (snd m)"
    using assms by (auto simp: match_inv_def sorted_wrt_map)
  have irr: "\<forall>x \<in> set R. \<not> sep (rect_of x) (rect_of x)"
    using pos by (auto simp: sep_rect_of m_before_def)
  have d: "distinct R" using sorted_wrt_irrefl_distinct[OF sw irr] .
  have pw: "m_before x y \<or> m_before y x" if "x \<in> set R" "y \<in> set R" "x \<noteq> y" for x y
    using sorted_wrt_sym_pairwise[OF sw _ that] by (auto simp: sep_rect_of)
  have "sorted_wrt (<) (sort R)"
    using d by (simp add: strict_sorted_iff)
  moreover have "m_before x y" if "x \<in> set (sort R)" "y \<in> set (sort R)" "x < y" for x y
  proof -
    from that have xy: "x \<in> set R" "y \<in> set R" "x \<noteq> y" by auto
    from pw[OF xy] show ?thesis
    proof
      assume "m_before y x"
      then have "y < x" using m_before_less pos xy(2) by blast
      with that(3) show ?thesis by simp
    qed
  qed
  ultimately show ?thesis by (rule sorted_wrt_mono_rel[rotated])
qed

lemma chain_of_sorted:
  assumes "sorted_wrt m_before xs" "\<forall>x \<in> set xs. i \<le> fst x \<and> j \<le> fst (snd x)"
  shows "chain xs i j"
  using assms
proof (induction xs arbitrary: i j)
  case Nil
  then show ?case by simp
next
  case (Cons x xs)
  obtain ai bj sz where x: "x = (ai, bj, sz)" by (cases x) auto
  have "\<forall>y \<in> set xs. ai + sz \<le> fst y \<and> bj + sz \<le> fst (snd y)"
    using Cons.prems(1) by (auto simp: x m_before_def)
  with Cons show ?case by (simp add: x)
qed

lemma chain_sentinel:
  assumes "chain xs i j" "\<forall>x \<in> set xs. fst x + snd (snd x) \<le> n \<and> fst (snd x) + snd (snd x) \<le> m"
    "i \<le> n" "j \<le> m"
  shows "chain (xs @ [(n, m, 0)]) i j"
  using assms by (induction xs i j rule: chain.induct) auto

lemma chain_mono: "chain xs i j \<Longrightarrow> i' \<le> i \<Longrightarrow> j' \<le> j \<Longrightarrow> chain xs i' j'"
  by (induction xs i j rule: chain.induct) auto

lemma chain_drop_zero: "chain (xs @ (i1, j1, 0) # ys) p q \<Longrightarrow> chain (xs @ ys) p q"
  by (induction xs p q rule: chain.induct) (auto intro: chain_mono)

lemma chain_merge:
  "chain (xs @ (i1, j1, k1) # (i1 + k1, j1 + k1, k2) # r) p q
   \<Longrightarrow> chain (xs @ (i1, j1, k1 + k2) # r) p q"
  by (induction xs p q rule: chain.induct) (auto simp: add.assoc)

lemma collapse_chain:
  "chain (na @ (i1, j1, k1) # rest @ [s]) 0 0
   \<Longrightarrow> chain (collapse rest (i1, j1, k1) na @ [s]) 0 0"
proof (induction rest "(i1, j1, k1)" na arbitrary: i1 j1 k1 rule: collapse.induct)
  case (1 i1 j1 k1 non_adjacent)
  then show ?case using chain_drop_zero[of non_adjacent i1 j1 "[s]" 0 0] by auto
next
  case (2 i2 j2 k2 rest i1 j1 k1 non_adjacent)
  show ?case
  proof (cases "i1 + k1 = i2 \<and> j1 + k1 = j2")
    case True
    then have "chain (non_adjacent @ (i1, j1, k1 + k2) # rest @ [s]) 0 0"
      using "2.prems" chain_merge[of non_adjacent i1 j1 k1 k2 "rest @ [s]" 0 0] by auto
    then show ?thesis using "2.hyps"(1)[OF True] True by simp
  next
    case False
    have "chain ((if k1 \<noteq> 0 then non_adjacent @ [(i1, j1, k1)] else non_adjacent)
                  @ (i2, j2, k2) # rest @ [s]) 0 0"
      using "2.prems" chain_drop_zero[of non_adjacent i1 j1 "(i2, j2, k2) # rest @ [s]" 0 0]
      by auto
    from "2.hyps"(2)[OF False this]
    have "chain (collapse rest (i2, j2, k2)
                   (if k1 \<noteq> 0 then non_adjacent @ [(i1, j1, k1)] else non_adjacent) @ [s]) 0 0" .
    moreover have "collapse ((i2, j2, k2) # rest) (i1, j1, k1) non_adjacent
       = collapse rest (i2, j2, k2)
           (if k1 \<noteq> 0 then non_adjacent @ [(i1, j1, k1)] else non_adjacent)"
      by (simp only: collapse.simps False if_False)
    ultimately show ?thesis by simp
  qed
qed

lemma match_inv_initial: "match_inv (0, la, 0, lb) [(0, la, 0, lb)] []"
  by (simp add: match_inv_def inside_def)

lemma get_matching_blocks_chain: "chain (get_matching_blocks a b) 0 0"
proof -
  define R where "R = match_loop a b (chain_b b) [(0, length a, 0, length b)] []"
  have inv: "match_inv (0, length a, 0, length b) [] R"
    unfolding R_def by (rule match_loop_inv[OF match_inv_initial])
  have 1: "chain (sort R) 0 0"
    by (rule chain_of_sorted[OF sorted_blocks_m_before[OF inv]]) simp
  have "\<forall>x \<in> set R. inside (rect_of x) (0, length a, 0, length b)"
    using inv by (auto simp: match_inv_def)
  then have 2: "\<forall>x \<in> set (sort R). fst x + snd (snd x) \<le> length a
                   \<and> fst (snd x) + snd (snd x) \<le> length b"
    by (auto simp: inside_def rect_of_def)
  have "chain (sort R @ [(length a, length b, 0)]) 0 0"
    by (rule chain_sentinel[OF 1 2]) simp_all
  then have "chain ([] @ (0, 0, 0) # sort R @ [(length a, length b, 0)]) 0 0" by simp
  from collapse_chain[OF this] show ?thesis
    by (simp add: get_matching_blocks_def Let_def R_def)
qed

subsection \<open>The opcodes partition both sequences\<close>

text \<open>
  \<open>covers ops i j n m\<close>: the regions of \<open>ops\<close>, in order, start at \<open>(i, j)\<close>, each starts
  where the one before it ends, on both sides, and the last ends at \<open>(n, m)\<close>; every
  region is non-empty and shaped as its tag says (\<open>well_tagged\<close>). \<open>equal_total\<close> is
  the sum of the lengths of the Equal regions and \<open>msum\<close> the number of matched elements.
\<close>

definition msum :: "match list \<Rightarrow> nat" where
  "msum xs = sum_list (map (\<lambda>triple. snd (snd triple)) xs)"









lemma chain_msum_bound:
  "chain (xs @ [(n, m, 0)]) i j \<Longrightarrow> i + msum xs \<le> n \<and> j + msum xs \<le> m"
proof (induction xs arbitrary: i j)
  case Nil
  then show ?case by (simp add: msum_def)
next
  case (Cons x xs)
  obtain ai bj sz where x: "x = (ai, bj, sz)" by (cases x) auto
  from Cons.prems have c: "i \<le> ai" "j \<le> bj" "chain (xs @ [(n, m, 0)]) (ai + sz) (bj + sz)"
    by (auto simp: x)
  from Cons.IH[OF c(3)] c(1,2) show ?case by (simp add: msum_def x)
qed

lemma get_matching_blocks_sentinel:
  "\<exists>na. get_matching_blocks a b = na @ [(length a, length b, 0)]"
  by (simp add: get_matching_blocks_def Let_def)

lemma matches_bound:
  "msum (get_matching_blocks a b) \<le> length a \<and> msum (get_matching_blocks a b) \<le> length b"
proof -
  obtain na where na: "get_matching_blocks a b = na @ [(length a, length b, 0)]"
    using get_matching_blocks_sentinel by blast
  from get_matching_blocks_chain[of a b] have "chain (na @ [(length a, length b, 0)]) 0 0"
    by (simp add: na)
  from chain_msum_bound[OF this] show ?thesis by (simp add: na msum_def)
qed

lemma ratio_eq: "ratio a b = calculate_ratio (msum (get_matching_blocks a b)) (length a + length b)"
  by (simp add: ratio_def msum_def)

lemma ratio_bounds: "0 \<le> ratio a b \<and> ratio a b \<le> 1"
proof -
  have "2 * msum (get_matching_blocks a b) \<le> length a + length b"
    using matches_bound[of a b] by linarith
  then have "2 * real (msum (get_matching_blocks a b)) \<le> real (length a + length b)"
    by (metis of_nat_le_iff of_nat_mult of_nat_numeral)
  then show ?thesis
    by (auto simp: ratio_eq calculate_ratio_def divide_le_eq_1)
qed

lemma landmark_diff_bounds: "0 \<le> landmark_diff old new \<and> landmark_diff old new \<le> 1"
  using ratio_bounds[of old new] by (simp add: landmark_diff_def)



subsection \<open>The ratio in double precision\<close>

text \<open>
  The match ratio is a Python \<^verbatim>\<open>float\<close>, and the equation of claim C5 multiplies it
  back, so here the rounding matters and the arithmetic is modelled as it is computed. A
  finite double is a rational number; \<open>double_round\<close> rounds a rational to the nearest
  double, ties to the even significand (IEEE 754 binary64: 53 significant bits,
  subnormals below \<open>2 powi - 1022\<close>; overflow lies outside the model). \<open>bit_length\<close> is
  the number of binary digits of a positive integer and \<open>floor_log2 x\<close> the exponent
  \<open>e\<close> with \<open>2 powi e \<le> \<bar>x\<bar> < 2 powi (e + 1)\<close> (lemma \<open>floor_log2_correct\<close>).
\<close>

function bit_length :: "int \<Rightarrow> nat" where
  "bit_length n = (if n \<le> 0 then 0 else Suc (bit_length (n div 2)))"
  by pat_completeness auto
termination
  by (relation "measure nat") auto

declare bit_length.simps [simp del]

definition floor_log2 :: "rat \<Rightarrow> int" where
  "floor_log2 x =
     (case quotient_of \<bar>x\<bar> of (p, q) \<Rightarrow>
        let e0 = int (bit_length p) - int (bit_length q)
        in if \<bar>x\<bar> < 2 powi e0 then e0 - 1 else e0)"

definition round_half_even :: "rat \<Rightarrow> int" where
  "round_half_even x =
     (let f = \<lfloor>x\<rfloor>; d = x - of_int f
      in if d < 1 / 2 then f
         else if d > 1 / 2 then f + 1
         else if even f then f else f + 1)"

definition double_round :: "rat \<Rightarrow> rat" where
  "double_round x =
     (if x = 0 then 0
      else let e = max (floor_log2 x) (- 1022);
               ulp = 2 powi (e - 52)
           in of_int (round_half_even (x / ulp)) * ulp)"







lemma bit_length_bounds:
  "0 < n \<Longrightarrow> 2 ^ (bit_length n - 1) \<le> n \<and> n < 2 ^ bit_length n"
proof (induction n rule: bit_length.induct)
  case (1 n)
  show ?case
  proof (cases "n = 1")
    case True
    then show ?thesis by (simp add: bit_length.simps[of 1] bit_length.simps[of 0])
  next
    case False
    with "1.prems" have h: "0 < n div 2" by simp
    from "1.IH"[OF _ h] "1.prems"
    have ih: "2 ^ (bit_length (n div 2) - 1) \<le> n div 2" "n div 2 < 2 ^ bit_length (n div 2)"
      by auto
    have pos: "0 < bit_length (n div 2)" using h by (subst bit_length.simps) simp
    have bl: "bit_length n = Suc (bit_length (n div 2))"
      using "1.prems" by (subst bit_length.simps) simp
    have "2 ^ bit_length (n div 2) \<le> n"
    proof -
      have "(2::int) ^ bit_length (n div 2) = 2 * 2 ^ (bit_length (n div 2) - 1)"
        using pos by (cases "bit_length (n div 2)") auto
      also have "\<dots> \<le> 2 * (n div 2)" using ih(1) by simp
      also have "\<dots> \<le> n" by simp
      finally show ?thesis .
    qed
    moreover have "n < 2 * 2 ^ bit_length (n div 2)" using ih(2) by linarith
    ultimately show ?thesis by (simp add: bl)
  qed
qed

lemma floor_log2_correct:
  assumes "x \<noteq> 0"
  shows "2 powi floor_log2 x \<le> \<bar>x\<bar> \<and> \<bar>x\<bar> < 2 powi (floor_log2 x + 1)"
proof -
  obtain p q where pq: "quotient_of \<bar>x\<bar> = (p, q)" by (cases "quotient_of \<bar>x\<bar>") auto
  have q: "0 < q" using quotient_of_denom_pos[OF pq] .
  have x: "\<bar>x\<bar> = of_int p / of_int q" using quotient_of_div[OF pq] .
  have p: "0 < p"
  proof -
    have "0 < \<bar>x\<bar>" using assms by simp
    then show ?thesis using q unfolding x by (simp add: zero_less_divide_iff)
  qed
  define bp bq where "bp = bit_length p" and "bq = bit_length q"
  from bit_length_bounds[OF p] have pb: "2 ^ (bp - 1) \<le> p" "p < 2 ^ bp" by (auto simp: bp_def)
  from bit_length_bounds[OF q] have qb: "2 ^ (bq - 1) \<le> q" "q < 2 ^ bq" by (auto simp: bq_def)
  have bp0: "0 < bp" using p by (subst bp_def, subst bit_length.simps) simp
  have bq0: "0 < bq" using q by (subst bq_def, subst bit_length.simps) simp
  define e0 where "e0 = int bp - int bq"
  have rp: "(2::rat) ^ (bp - 1) \<le> of_int p" "(of_int p :: rat) < 2 ^ bp"
    using pb by (metis of_int_le_iff of_int_numeral of_int_power, metis of_int_less_iff of_int_numeral of_int_power)
  have rq: "(2::rat) ^ (bq - 1) \<le> of_int q" "(of_int q :: rat) < 2 ^ bq"
    using qb by (metis of_int_le_iff of_int_numeral of_int_power, metis of_int_less_iff of_int_numeral of_int_power)
  have qpos: "(0::rat) < of_int q" using q by simp
  have up: "\<bar>x\<bar> < 2 powi (e0 + 1)"
  proof -
    have "of_int p / of_int q < (2::rat) ^ bp / 2 ^ (bq - 1)"
      using rp(2) rq(1) qpos p
      by (intro frac_less) auto
    also have "\<dots> = 2 powi (e0 + 1)"
    proof -
      have "int bp - int (bq - 1) = e0 + 1" using bq0 by (simp add: e0_def of_nat_diff)
      have "(2::rat) ^ bp / 2 ^ (bq - 1) = 2 powi int bp / 2 powi int (bq - 1)" by simp
      also have "\<dots> = 2 powi (int bp - int (bq - 1))"
        by (rule power_int_diff[symmetric]) simp
      finally show ?thesis by (simp only: \<open>int bp - int (bq - 1) = e0 + 1\<close>)
    qed
    finally show ?thesis by (simp add: x)
  qed
  have lo: "2 powi (e0 - 1) \<le> \<bar>x\<bar>"
  proof -
    have "(2::rat) ^ (bp - 1) / 2 ^ bq \<le> of_int p / of_int q"
      using rp(1) rq(2) qpos p
      by (intro frac_le) auto
    moreover have "(2::rat) ^ (bp - 1) / 2 ^ bq = 2 powi (e0 - 1)"
    proof -
      have "int (bp - 1) - int bq = e0 - 1" using bp0 by (simp add: e0_def of_nat_diff)
      have "(2::rat) ^ (bp - 1) / 2 ^ bq = 2 powi int (bp - 1) / 2 powi int bq" by simp
      also have "\<dots> = 2 powi (int (bp - 1) - int bq)"
        by (rule power_int_diff[symmetric]) simp
      finally show ?thesis by (simp only: \<open>int (bp - 1) - int bq = e0 - 1\<close>)
    qed
    ultimately show ?thesis by (simp add: x)
  qed
  have fl: "floor_log2 x = (if \<bar>x\<bar> < 2 powi e0 then e0 - 1 else e0)"
    by (simp add: floor_log2_def pq Let_def e0_def bp_def bq_def)
  show ?thesis using up lo by (auto simp: fl)
qed

lemma double_round_tenth: "double_round (1 / 10) = 3602879701896397 / 36028797018963968"
  by code_simp














subsection \<open>The score is not symmetric\<close>

text \<open>
  Two documents without a body element whose landmark sequences are
  header, nav, main, aside and main, nav, aside, header.
\<close>

definition doc_a :: node where
  "doc_a = Tag ''[document]'' Map.empty
     [Tag ''header'' Map.empty [], Tag ''nav'' Map.empty [], Tag ''main'' Map.empty [],
      Tag ''aside'' Map.empty []]"

definition doc_b :: node where
  "doc_b = Tag ''[document]'' Map.empty
     [Tag ''main'' Map.empty [], Tag ''nav'' Map.empty [], Tag ''aside'' Map.empty [],
      Tag ''header'' Map.empty []]"

lemma extract_landmarks_doc_a: "extract_landmarks doc_a = [''header'', ''nav'', ''main'', ''aside'']"
  by (simp add: doc_a_def extract_landmarks_def find_all_def LANDMARK_TAGS_def)

lemma extract_landmarks_doc_b: "extract_landmarks doc_b = [''main'', ''nav'', ''aside'', ''header'']"
  by (simp add: doc_b_def extract_landmarks_def find_all_def LANDMARK_TAGS_def)

lemma extract_skeleton_doc_a: "extract_skeleton doc_a = []"
  by (simp add: doc_a_def extract_skeleton_def find_first_def)

lemma extract_skeleton_doc_b: "extract_skeleton doc_b = []"
  by (simp add: doc_b_def extract_skeleton_def find_first_def)

lemma landmark_diff_a_b:
  "landmark_diff [''header'', ''nav'', ''main'', ''aside''] [''main'', ''nav'', ''aside'', ''header'']
     = 3 / 4"
  by code_simp

lemma landmark_diff_b_a:
  "landmark_diff [''main'', ''nav'', ''aside'', ''header''] [''header'', ''nav'', ''main'', ''aside'']
     = 1 / 2"
  by code_simp

text \<open>
  Claim C4, as stated, fails: the longest-match search breaks ties by the position in
  its first argument, so the alignment, and with it the score, depends on the order of
  the arguments. Here only "header" is matched in one direction (score 0.3), but
  "main" and "aside" in the other (score 0.2).
\<close>

theorem diff_score_asymmetric_counterexample:
  "diff_score doc_a doc_b \<noteq> diff_score doc_b doc_a"
  by (simp add: diff_score_def extract_landmarks_doc_a extract_landmarks_doc_b
        extract_skeleton_doc_a extract_skeleton_doc_b landmark_diff_a_b landmark_diff_b_a
        skeleton_diff_def LANDMARK_WEIGHT_def)

subsection \<open>Bounds of the scores\<close>

lemma replace_step_bounds:
  "total_diff \<le> replace_step old_slice new_slice k total_diff
   \<and> replace_step old_slice new_slice k total_diff \<le> total_diff + 1"
  using node_diff_bounds[of "old_slice ! k" "new_slice ! k"]
  by (simp add: replace_step_def)

lemma fold_replace_step_bounds:
  "total_diff \<le> fold (replace_step old_slice new_slice) ks total_diff
   \<and> fold (replace_step old_slice new_slice) ks total_diff \<le> total_diff + real (length ks)"
proof (induction ks arbitrary: total_diff)
  case Nil
  then show ?case by simp
next
  case (Cons k ks)
  from Cons.IH[of "replace_step old_slice new_slice k total_diff"]
    replace_step_bounds[of total_diff old_slice new_slice k]
  show ?case by simp
qed

definition score_ok :: "real \<times> nat \<Rightarrow> bool" where
  "score_ok st = (case st of (total_diff, total_positions) \<Rightarrow>
     0 \<le> total_diff \<and> total_diff \<le> real total_positions)"

lemma score_step_ok:
  assumes "score_ok st" shows "score_ok (score_step old new opc st)"
proof -
  obtain op i1 i2 j1 j2 where opc: "opc = (op, i1, i2, j1, j2)" by (cases opc) auto
  obtain td tp where st: "st = (td, tp)" by (cases st) auto
  from assms have b: "0 \<le> td" "td \<le> real tp" by (auto simp: score_ok_def st)
  define c where "c = max (length (slice old i1 i2)) (length (slice new j1 j2))"
  have f: "td \<le> fold (replace_step (slice old i1 i2) (slice new j1 j2)) [0..<c] td"
    "fold (replace_step (slice old i1 i2) (slice new j1 j2)) [0..<c] td \<le> td + real c"
    using fold_replace_step_bounds[of td "slice old i1 i2" "slice new j1 j2" "[0..<c]"] by auto
  consider (eq) "op = ''equal''" | (rep) "op \<noteq> ''equal''" "op = ''replace''"
    | (ins) "op \<noteq> ''equal''" "op \<noteq> ''replace''" "op = ''insert''"
    | (del) "op \<noteq> ''equal''" "op \<noteq> ''replace''" "op \<noteq> ''insert''" "op = ''delete''"
    | (other) "op \<noteq> ''equal''" "op \<noteq> ''replace''" "op \<noteq> ''insert''" "op \<noteq> ''delete''"
    by blast
  then show ?thesis
  proof cases
    case eq
    then have "score_step old new opc st = (td, tp + (i2 - i1))"
      by (simp add: opc st score_step_def)
    then show ?thesis using b by (simp add: score_ok_def)
  next
    case rep
    then have "score_step old new opc st
      = (fold (replace_step (slice old i1 i2) (slice new j1 j2)) [0..<c] td, tp + c)"
      by (simp add: opc st score_step_def Let_def c_def)
    then show ?thesis using b f by (simp add: score_ok_def)
  next
    case ins
    then have "score_step old new opc st = (td + real (j2 - j1), tp + (j2 - j1))"
      by (simp add: opc st score_step_def Let_def)
    then show ?thesis using b by (simp add: score_ok_def)
  next
    case del
    then have "score_step old new opc st = (td + real (i2 - i1), tp + (i2 - i1))"
      by (simp add: opc st score_step_def Let_def)
    then show ?thesis using b by (simp add: score_ok_def)
  next
    case other
    then have "score_step old new opc st = (td, tp)"
      by (simp add: opc st score_step_def Let_def)
    then show ?thesis using b by (simp add: score_ok_def)
  qed
qed

lemma score_loop_ok: "score_ok st \<Longrightarrow> score_ok (score_loop old new ops st)"
  by (induction ops arbitrary: st) (simp_all add: score_step_ok)

lemma skeleton_diff_bounds: "0 \<le> skeleton_diff old new \<and> skeleton_diff old new \<le> 1"
proof -
  obtain td tp where r: "score_loop old new (get_opcodes old new) (0, 0) = (td, tp)"
    by (cases "score_loop old new (get_opcodes old new) (0, 0)") auto
  have "score_ok (td, tp)"
    using score_loop_ok[of "(0, 0)" old new "get_opcodes old new"] by (simp add: r score_ok_def)
  then have "0 \<le> td" "td \<le> real tp" by (auto simp: score_ok_def)
  then have "tp > 0 \<Longrightarrow> 0 \<le> td / real tp \<and> td / real tp \<le> 1"
    by (auto simp: divide_le_eq_1)
  then show ?thesis by (auto simp: skeleton_diff_def r)
qed

lemma diff_score_bounds: "0 \<le> diff_score old_soup new_soup \<and> diff_score old_soup new_soup \<le> 1"
proof -
  define l where "l = landmark_diff (extract_landmarks old_soup) (extract_landmarks new_soup)"
  define s where "s = skeleton_diff (extract_skeleton old_soup) (extract_skeleton new_soup)"
  have "0 \<le> l" "l \<le> 1" "0 \<le> s" "s \<le> 1"
    using landmark_diff_bounds skeleton_diff_bounds by (auto simp: l_def s_def)
  moreover have "diff_score old_soup new_soup = l * (40 / 100) + s * (60 / 100)"
    by (simp add: diff_score_def l_def s_def LANDMARK_WEIGHT_def SKELETON_WEIGHT_def)
  ultimately show ?thesis by simp
qed

text \<open>
  Claim C2. For every pair of documents the combined score lies in [0, 1], and so do
  \<open>landmark_diff\<close>, \<open>skeleton_diff\<close> and \<open>node_diff\<close> on all their inputs.
\<close>

theorem score_bounds:
  "0 \<le> diff_score old_soup new_soup \<and> diff_score old_soup new_soup \<le> 1
   \<and> 0 \<le> landmark_diff old new \<and> landmark_diff old new \<le> 1
   \<and> 0 \<le> skeleton_diff old_profiles new_profiles \<and> skeleton_diff old_profiles new_profiles \<le> 1
   \<and> 0 \<le> node_diff p q \<and> node_diff p q \<le> 1"
  using diff_score_bounds landmark_diff_bounds skeleton_diff_bounds node_diff_bounds by blast

lemma diff_score_doc_a_doc_b: "diff_score doc_a doc_b = 3 / 10"
  by (simp add: diff_score_def extract_landmarks_doc_a extract_landmarks_doc_b
        extract_skeleton_doc_a extract_skeleton_doc_b landmark_diff_a_b
        skeleton_diff_def LANDMARK_WEIGHT_def)

theorem score_bounds_witness:
  "diff_score doc_a doc_b = 3 / 10 \<and> 0 \<le> diff_score doc_a doc_b \<and> diff_score doc_a doc_b \<le> 1"
  using score_bounds[of doc_a doc_b] diff_score_doc_a_doc_b by blast

subsection \<open>Symmetry in the degenerate cases\<close>

lemma node_diff_sym: "node_diff p q = node_diff q p"
proof -
  have 1: "(tag p = tag q) = (tag q = tag p)" "(id_attr p = id_attr q) = (id_attr q = id_attr p)"
    by auto
  have 2: "set (classes p) \<inter> set (classes q) = set (classes q) \<inter> set (classes p)"
    "set (classes p) \<union> set (classes q) = set (classes q) \<union> set (classes p)"
    by auto
  have 3: "max (child_count p) (child_count q) = max (child_count q) (child_count p)"
    "\<bar>int (child_count p) - int (child_count q)\<bar> = \<bar>int (child_count q) - int (child_count p)\<bar>"
    by auto
  have 4: "(set (classes p) \<noteq> {} \<or> set (classes q) \<noteq> {})
         = (set (classes q) \<noteq> {} \<or> set (classes p) \<noteq> {})"
    by auto
  show ?thesis
    unfolding node_diff_def Let_def 1 2 3 4 ..
qed

lemma find_longest_match_empty_window:
  assumes "ahi \<le> alo \<or> bhi \<le> blo"
  shows "snd (snd (find_longest_match a b b2j alo ahi blo bhi)) = 0"
  using find_longest_match_ok[of alo ahi blo bhi a b b2j] assms
  by (cases "find_longest_match a b b2j alo ahi blo bhi") (auto simp: best_ok_def)

lemma match_loop_empty_window:
  assumes "ahi \<le> alo \<or> bhi \<le> blo"
  shows "match_loop a b b2j [(alo, ahi, blo, bhi)] [] = []"
  using find_longest_match_empty_window[OF assms, of a b b2j]
  by (cases "find_longest_match a b b2j alo ahi blo bhi") (simp add: match_loop.simps)

lemma get_matching_blocks_empty:
  "get_matching_blocks [] b = [(0, length b, 0)]" "get_matching_blocks a [] = [(length a, 0, 0)]"
  by (simp_all add: get_matching_blocks_def Let_def match_loop_empty_window)

lemma landmark_diff_one_empty:
  "new \<noteq> [] \<Longrightarrow> landmark_diff [] new = 1" "old \<noteq> [] \<Longrightarrow> landmark_diff old [] = 1"
  by (simp_all add: landmark_diff_def ratio_def get_matching_blocks_empty calculate_ratio_def)

lemma landmark_diff_sym_empty:
  "old = [] \<or> new = [] \<Longrightarrow> landmark_diff old new = landmark_diff new old"
  by (cases "old = []"; cases "new = []") (auto simp: landmark_diff_one_empty)

lemma skeleton_diff_sym_empty:
  "old = [] \<or> new = [] \<Longrightarrow> skeleton_diff old new = skeleton_diff new old"
  by (auto simp: skeleton_diff_def)

text \<open>
  Claim C4, amended. The node distance is symmetric, and so are \<open>landmark_diff\<close> and
  \<open>skeleton_diff\<close> whenever one of the two sequences is empty, hence \<open>diff_score\<close> for
  documents one of which has no landmarks and one of which has no skeleton. For general
  sequences the scores depend on the order of the arguments.
\<close>

theorem symmetry_degenerate:
  "node_diff p q = node_diff q p
   \<and> (old = [] \<or> new = [] \<longrightarrow> landmark_diff old new = landmark_diff new old)
   \<and> (old_profiles = [] \<or> new_profiles = [] \<longrightarrow>
        skeleton_diff old_profiles new_profiles = skeleton_diff new_profiles old_profiles)
   \<and> ((extract_landmarks old_soup = [] \<or> extract_landmarks new_soup = [])
        \<and> (extract_skeleton old_soup = [] \<or> extract_skeleton new_soup = []) \<longrightarrow>
        diff_score old_soup new_soup = diff_score new_soup old_soup)"
  using node_diff_sym landmark_diff_sym_empty skeleton_diff_sym_empty
  by (auto simp: diff_score_def)

theorem symmetry_degenerate_witness:
  "landmark_diff [] [''nav''] = 1
   \<and> landmark_diff [] [''nav''] = landmark_diff [''nav''] []"
proof -
  have h: "([] :: string list) = [] \<or> [''nav''] = []" by simp
  have v: "landmark_diff [] [''nav''] = 1" by (simp add: landmark_diff_one_empty)
  from symmetry_degenerate[of _ _ "[]" "[''nav'']"] h
  have "landmark_diff [] [''nav''] = landmark_diff [''nav''] []" by blast
  with v show ?thesis by simp
qed

subsection \<open>A sequence against itself\<close>

text \<open>
  The index of \<^verbatim>\<open>__chain_b\<close> as a function: an element that is kept (not purged as
  popular) is mapped to the ascending list of all its positions. \<open>np xs x\<close> says that
  \<open>x\<close> is a key of \<^verbatim>\<open>b2j\<close>, and \<open>idx xs i\<close> is \<^verbatim>\<open>b2j.get(xs[i], [])\<close>.
\<close>

lemma fold_b2j_add_snoc:
  "fold b2j_add (enumerate 0 (b @ [y])) Map.empty
     = b2j_add (length b, y) (fold b2j_add (enumerate 0 b) Map.empty)"
  by (simp add: enumerate_append_eq)

lemma filter_upt_snoc:
  "[j \<leftarrow> [0..<Suc (length b)]. (b @ [y]) ! j = x]
     = [j \<leftarrow> [0..<length b]. b ! j = x] @ (if y = x then [length b] else [])"
proof -
  have "[j \<leftarrow> [0..<length b]. (b @ [y]) ! j = x] = [j \<leftarrow> [0..<length b]. b ! j = x]"
    by (rule filter_cong) (auto simp: nth_append)
  then show ?thesis by simp
qed

lemma b2j_add_apply:
  "b2j_add (i, e) m x
     = (if x = e then Some ((case m e of None \<Rightarrow> [] | Some l \<Rightarrow> l) @ [i]) else m x)"
  by (simp add: b2j_add_def)

lemma fold_b2j_add_eq:
  "fold b2j_add (enumerate 0 b) Map.empty x
     = (if x \<in> set b then Some [j \<leftarrow> [0..<length b]. b ! j = x] else None)"
proof (induction b rule: rev_induct)
  case Nil
  then show ?case by simp
next
  case (snoc y b)
  have nil: "x \<notin> set b \<Longrightarrow> [j \<leftarrow> [0..<length b]. b ! j = x] = []"
    by (auto simp: filter_empty_conv)
  show ?case
    unfolding fold_b2j_add_snoc
    using snoc.IH nil
    by (auto simp: b2j_add_apply filter_upt_snoc simp del: upt_Suc)
qed

lemma chain_b_cases:
  "chain_b b x = None \<or> (x \<in> set b \<and> chain_b b x = Some [j \<leftarrow> [0..<length b]. b ! j = x])"
  by (auto simp: chain_b_def purge_popular_def fold_b2j_add_eq Let_def)

definition np :: "'a list \<Rightarrow> 'a \<Rightarrow> bool" where
  "np xs x \<longleftrightarrow> chain_b xs x \<noteq> None"

definition idx :: "'a list \<Rightarrow> nat \<Rightarrow> nat list" where
  "idx xs i = (case chain_b xs (xs ! i) of None \<Rightarrow> [] | Some js \<Rightarrow> js)"

lemma idx_eq:
  "idx xs i = (if np xs (xs ! i) then [j \<leftarrow> [0..<length xs]. xs ! j = xs ! i] else [])"
  using chain_b_cases[of xs "xs ! i"] by (auto simp: idx_def np_def)

lemma idx_mem: "j \<in> set (idx xs i) \<longleftrightarrow> j < length xs \<and> xs ! j = xs ! i \<and> np xs (xs ! i)"
  by (auto simp: idx_eq)

lemma idx_sorted: "sorted (idx xs i)" "distinct (idx xs i)"
  by (auto simp: idx_eq intro: sorted_wrt_filter)

text \<open>
  When both sequences are \<open>xs\<close>, the value the main loop stores for the pair \<open>(i, j)\<close> is
  \<open>mrun xs i j\<close>: the length of the longest run of kept elements that ends at \<open>i\<close> and
  equals the run ending at \<open>j\<close>. It is largest on the diagonal (\<open>mrun_le_row\<close>,
  \<open>mrun_le_col\<close>), whatever elements the popularity heuristic has purged, and so the
  best match of the main loop always starts at the same index on both sides.
\<close>

fun mrun :: "'a list \<Rightarrow> nat \<Rightarrow> nat \<Rightarrow> nat" where
  "mrun xs 0 j = (if xs ! 0 = xs ! j \<and> np xs (xs ! j) then 1 else 0)"
| "mrun xs (Suc i) j =
     (if xs ! Suc i = xs ! j \<and> np xs (xs ! j)
      then (case j of 0 \<Rightarrow> 1 | Suc j' \<Rightarrow> mrun xs i j' + 1) else 0)"

lemma mrun_zero: "\<not> (xs ! i = xs ! j \<and> np xs (xs ! j)) \<Longrightarrow> mrun xs i j = 0"
  by (cases i) auto

lemma mrun_pos: "xs ! i = xs ! j \<Longrightarrow> np xs (xs ! j) \<Longrightarrow> 0 < mrun xs i j"
  by (cases i; cases j) auto

lemma mrun_le_row: "mrun xs i j \<le> mrun xs i i"
proof (induction i arbitrary: j)
  case 0
  then show ?case by auto
next
  case (Suc i)
  show ?case using Suc.IH by (cases j) auto
qed

lemma mrun_le_col: "mrun xs i j \<le> mrun xs j j"
proof (induction i arbitrary: j)
  case 0
  then show ?case using mrun_pos[of xs j j] by (auto simp: Suc_le_eq)
next
  case (Suc i)
  show ?case
  proof (cases j)
    case 0
    then show ?thesis by auto
  next
    case (Suc j')
    then show ?thesis using Suc.IH[of j'] by auto
  qed
qed

definition row_ok :: "'a list \<Rightarrow> nat \<Rightarrow> (nat \<rightharpoonup> nat) \<Rightarrow> bool" where
  "row_ok xs i j2len \<longleftrightarrow>
     (\<forall>j. j2len j = (if j \<in> set (idx xs i) then Some (mrun xs i j) else None))"

definition prev_ok :: "'a list \<Rightarrow> nat \<Rightarrow> (nat \<rightharpoonup> nat) \<Rightarrow> bool" where
  "prev_ok xs i j2len \<longleftrightarrow> (case i of 0 \<Rightarrow> j2len = Map.empty | Suc i' \<Rightarrow> row_ok xs i' j2len)"

lemma k_eq:
  assumes "prev_ok xs i j2len" "j \<in> set (idx xs i)"
  shows "j2lenget j2len j + 1 = mrun xs i j"
proof -
  from assms(2) have m: "xs ! i = xs ! j" "np xs (xs ! j)" "j < length xs"
    by (auto simp: idx_mem)
  show ?thesis
  proof (cases i)
    case 0
    then show ?thesis using assms(1) m by (simp add: prev_ok_def j2lenget_def)
  next
    case (Suc i')
    then have r: "row_ok xs i' j2len" using assms(1) by (simp add: prev_ok_def)
    show ?thesis
    proof (cases j)
      case 0
      then show ?thesis using m Suc by (simp add: j2lenget_def)
    next
      case (Suc j')
      have "j2len j' = (if j' \<in> set (idx xs i') then Some (mrun xs i' j') else None)"
        using r by (simp add: row_ok_def)
      moreover have "j' \<notin> set (idx xs i') \<Longrightarrow> mrun xs i' j' = 0"
        using m(3) Suc by (intro mrun_zero) (auto simp: idx_mem)
      ultimately have "j2lenget j2len j = mrun xs i' j'"
        by (auto simp: j2lenget_def Suc)
      then show ?thesis using m \<open>i = Suc i'\<close> Suc by simp
    qed
  qed
qed

lemma inner_loop_new:
  assumes "\<forall>j \<in> set js. j < bhi"
  shows "fst (inner_loop j2len i 0 bhi js (new, best))
           = (\<lambda>j. if j \<in> set js then Some (j2lenget j2len j + 1) else new j)"
  using assms
proof (induction js arbitrary: new best)
  case Nil
  then show ?case by simp
next
  case (Cons j js)
  obtain besti bestj bestsize where best: "best = (besti, bestj, bestsize)" by (cases best) auto
  from Cons.prems have "j < bhi" "\<forall>j \<in> set js. j < bhi" by auto
  then show ?case
    by (auto simp: best Let_def Cons.IH fun_eq_iff)
qed

lemma inner_loop_row_ok:
  assumes "prev_ok xs i j2len"
  shows "row_ok xs i (fst (inner_loop j2len i 0 (length xs) (idx xs i) (Map.empty, best)))"
proof -
  have "\<forall>j \<in> set (idx xs i). j < length xs" by (simp add: idx_mem)
  from inner_loop_new[OF this] k_eq[OF assms] show ?thesis
    by (auto simp: row_ok_def)
qed

definition diag_ok :: "'a list \<Rightarrow> nat \<Rightarrow> match \<Rightarrow> bool" where
  "diag_ok xs i best = (case best of (besti, bestj, bestsize) \<Rightarrow>
     besti = bestj \<and> (\<forall>i' < i. mrun xs i' i' \<le> bestsize))"

lemma inner_loop_diag:
  assumes prev: "prev_ok xs i j2len"
    and js: "sorted js" "distinct js" "set js \<subseteq> set (idx xs i)"
    and d: "besti = bestj"
    and lt: "\<forall>j \<in> set js. j < i \<longrightarrow> mrun xs i j \<le> bestsize"
    and dn: "i \<notin> set js \<longrightarrow> mrun xs i i \<le> bestsize"
  shows "case snd (inner_loop j2len i 0 (length xs) js (new, besti, bestj, bestsize)) of
           (besti', bestj', bestsize') \<Rightarrow>
             besti' = bestj' \<and> bestsize \<le> bestsize' \<and> mrun xs i i \<le> bestsize'"
  using js d lt dn
proof (induction js arbitrary: new besti bestj bestsize)
  case Nil
  then show ?case by simp
next
  case (Cons j js)
  from Cons.prems(3) have jm: "j \<in> set (idx xs i)" by simp
  then have jn: "j < length xs" by (simp add: idx_mem)
  define k where "k = j2lenget j2len j + 1"
  have k: "k = mrun xs i j" unfolding k_def by (rule k_eq[OF prev jm])
  define best' where "best' = (if k > bestsize then (i + 1 - k, j + 1 - k, k) else (besti, bestj, bestsize))"
  have step: "inner_loop j2len i 0 (length xs) (j # js) (new, besti, bestj, bestsize)
      = inner_loop j2len i 0 (length xs) js (new(j \<mapsto> k), best')"
    using jn by (simp add: k_def best'_def Let_def)
  have js': "sorted js" "distinct js" "set js \<subseteq> set (idx xs i)" "j \<notin> set js"
    "\<forall>j' \<in> set js. j < j'"
    using Cons.prems(1-3) by (auto simp: less_le)
  consider (below) "j < i" | (diag) "j = i" | (above) "i < j" by linarith
  then have "\<exists>bi bs. best' = (bi, bi, bs) \<and> bestsize \<le> bs
       \<and> (\<forall>j' \<in> set js. j' < i \<longrightarrow> mrun xs i j' \<le> bs)
       \<and> (i \<notin> set js \<longrightarrow> mrun xs i i \<le> bs)"
  proof cases
    case below
    then have "k \<le> bestsize" using Cons.prems(5) k by simp
    then have "best' = (besti, besti, bestsize)" using Cons.prems(4) by (simp add: best'_def)
    moreover have "i \<notin> set js \<longrightarrow> mrun xs i i \<le> bestsize"
      using Cons.prems(6) below by auto
    ultimately show ?thesis using Cons.prems(5) by auto
  next
    case diag
    show ?thesis
    proof (cases "k > bestsize")
      case True
      then have "best' = (i + 1 - k, i + 1 - k, k)" by (simp add: best'_def diag)
      moreover have "\<forall>j' \<in> set js. j' < i \<longrightarrow> mrun xs i j' \<le> k"
        using Cons.prems(5) True by auto
      ultimately show ?thesis using True k diag by auto
    next
      case False
      then have "best' = (besti, besti, bestsize)" using Cons.prems(4) by (simp add: best'_def)
      then show ?thesis using False k diag Cons.prems(5) by auto
    qed
  next
    case above
    then have "i \<notin> set (j # js)" using js'(5) by auto
    then have "mrun xs i i \<le> bestsize" using Cons.prems(6) by blast
    then have "k \<le> bestsize" using mrun_le_row[of xs i j] k by simp
    then have "best' = (besti, besti, bestsize)" using Cons.prems(4) by (simp add: best'_def)
    then show ?thesis using \<open>mrun xs i i \<le> bestsize\<close> Cons.prems(5) by auto
  qed
  then obtain bi bs where b: "best' = (bi, bi, bs)" "bestsize \<le> bs"
    "\<forall>j' \<in> set js. j' < i \<longrightarrow> mrun xs i j' \<le> bs" "i \<notin> set js \<longrightarrow> mrun xs i i \<le> bs"
    by blast
  have "case snd (inner_loop j2len i 0 (length xs) js (new(j \<mapsto> k), bi, bi, bs)) of
          (besti', bestj', bestsize') \<Rightarrow>
             besti' = bestj' \<and> bs \<le> bestsize' \<and> mrun xs i i \<le> bestsize'"
    by (rule Cons.IH[OF js'(1-3) refl b(3,4)])
  then show ?case unfolding step b(1) using b(2) by (auto split: prod.splits)
qed

lemma outer_loop_diag:
  assumes "prev_ok xs lo (fst st)" "diag_ok xs lo (snd st)"
  shows "diag_ok xs (max lo (length xs))
           (snd (outer_loop xs (chain_b xs) 0 (length xs) [lo..<length xs] st))"
  using assms
proof (induction "length xs - lo" arbitrary: lo st)
  case 0
  then show ?case by (simp add: max_def)
next
  case (Suc m)
  then have lt: "lo < length xs" by simp
  obtain j2len besti bestj bestsize where st: "st = (j2len, besti, bestj, bestsize)"
    by (cases st) auto
  from Suc.prems(2) have d: "besti = bestj" "\<forall>i' < lo. mrun xs i' i' \<le> bestsize"
    by (auto simp: diag_ok_def st)
  from Suc.prems(1) have prev: "prev_ok xs lo j2len" by (simp add: st)
  define st' where "st' = inner_loop j2len lo 0 (length xs) (idx xs lo) (Map.empty, besti, bestj, bestsize)"
  have unfold: "outer_loop xs (chain_b xs) 0 (length xs) [lo..<length xs] st
      = outer_loop xs (chain_b xs) 0 (length xs) [Suc lo..<length xs] st'"
    using lt by (subst upt_conv_Cons) (simp_all add: st st'_def idx_def)
  have 1: "prev_ok xs (Suc lo) (fst st')"
    using inner_loop_row_ok[OF prev] by (simp add: prev_ok_def st'_def)
  have lt': "\<forall>j \<in> set (idx xs lo). j < lo \<longrightarrow> mrun xs lo j \<le> bestsize"
    using d(2) mrun_le_col[of xs lo] by (meson le_trans)
  have dn: "lo \<notin> set (idx xs lo) \<longrightarrow> mrun xs lo lo \<le> bestsize"
    using lt by (auto simp: idx_mem mrun_zero)
  have "case snd st' of (besti', bestj', bestsize') \<Rightarrow>
             besti' = bestj' \<and> bestsize \<le> bestsize' \<and> mrun xs lo lo \<le> bestsize'"
    unfolding st'_def
    by (rule inner_loop_diag[OF prev idx_sorted subset_refl d(1) lt' dn])
  then have 2: "diag_ok xs (Suc lo) (snd st')"
    using d(2) by (auto simp: diag_ok_def less_Suc_eq split: prod.splits intro: le_trans)
  have "diag_ok xs (max (Suc lo) (length xs))
           (snd (outer_loop xs (chain_b xs) 0 (length xs) [Suc lo..<length xs] st'))"
    by (rule Suc.hyps(1)[OF _ 1 2]) (use Suc.hyps(2) in simp)
  then show ?case using lt by (simp add: unfold max_def)
qed

lemma main_loop_identical:
  "\<exists>i k. snd (outer_loop xs (chain_b xs) 0 (length xs) [0..<length xs] (Map.empty, (0, 0, 0)))
            = (i, i, k) \<and> i + k \<le> length xs"
proof -
  define best where
    "best = snd (outer_loop xs (chain_b xs) 0 (length xs) [0..<length xs] (Map.empty, (0, 0, 0)))"
  have "diag_ok xs (max 0 (length xs)) best"
    unfolding best_def by (rule outer_loop_diag) (simp_all add: prev_ok_def diag_ok_def)
  moreover have "best_ok 0 (length xs) 0 (length xs) best"
    unfolding best_def by (rule outer_loop_inv) (simp_all add: j2len_ok_empty best_ok_def)
  ultimately show ?thesis
    unfolding best_def[symmetric] by (cases best) (auto simp: diag_ok_def best_ok_def)
qed

lemma extend_back_all:
  assumes "\<And>x. ok x"
  shows "extend_back ok xs xs 0 0 (i, i, k) = (0, 0, k + i)"
proof (induction i arbitrary: k)
  case 0
  then show ?case by (subst extend_back.simps) simp
next
  case (Suc i)
  show ?case by (subst extend_back.simps) (simp add: assms Suc.IH)
qed

lemma extend_fwd_all:
  assumes "\<And>x. ok x" "k \<le> n"
  shows "extend_fwd ok xs xs n n (0, 0, k) = (0, 0, n)"
  using assms(2)
proof (induction "n - k" arbitrary: k)
  case 0
  then show ?case by (subst extend_fwd.simps) simp
next
  case (Suc m)
  then have "extend_fwd ok xs xs n n (0, 0, k + 1) = (0, 0, n)"
    by (intro Suc.hyps(1)) auto
  moreover have "k < n" using Suc.hyps(2) by simp
  ultimately show ?case by (subst extend_fwd.simps) (simp add: assms(1))
qed

lemma extend_back_none:
  assumes "\<And>x. \<not> ok x"
  shows "extend_back ok a b alo blo m = m"
  by (cases m) (simp add: extend_back.simps assms)

lemma extend_fwd_none:
  assumes "\<And>x. \<not> ok x"
  shows "extend_fwd ok a b ahi bhi m = m"
  by (cases m) (simp add: extend_fwd.simps assms)

lemma find_longest_match_identical:
  "find_longest_match xs xs (chain_b xs) 0 (length xs) 0 (length xs) = (0, 0, length xs)"
proof -
  obtain i k where
    m: "snd (outer_loop xs (chain_b xs) 0 (length xs) [0..<length xs] (Map.empty, (0, 0, 0))) = (i, i, k)"
    and b: "i + k \<le> length xs"
    using main_loop_identical[of xs] by blast
  have 1: "extend_back (\<lambda>x. \<not> isbjunk x) xs xs 0 0 (i, i, k) = (0, 0, k + i)"
    by (rule extend_back_all) (simp add: isbjunk_def)
  have 2: "extend_fwd (\<lambda>x. \<not> isbjunk x) xs xs (length xs) (length xs) (0, 0, k + i)
             = (0, 0, length xs)"
    by (rule extend_fwd_all) (use b in \<open>simp_all add: isbjunk_def\<close>)
  have 3: "extend_back isbjunk xs xs 0 0 (0, 0, length xs) = (0, 0, length xs)"
    by (rule extend_back_none) (simp add: isbjunk_def)
  have 4: "extend_fwd isbjunk xs xs (length xs) (length xs) (0, 0, length xs) = (0, 0, length xs)"
    by (rule extend_fwd_none) (simp add: isbjunk_def)
  show ?thesis
    unfolding find_longest_match_def Let_def m 1 2 3 4 ..
qed

lemma get_matching_blocks_identical:
  "get_matching_blocks xs xs
     = (if xs = [] then [(0, 0, 0)] else [(0, 0, length xs), (length xs, length xs, 0)])"
  by (simp add: get_matching_blocks_def Let_def match_loop.simps find_longest_match_identical)

lemma ratio_identical: "ratio xs xs = 1"
  by (simp add: ratio_def get_matching_blocks_identical calculate_ratio_def)

lemma landmark_diff_identical: "landmark_diff xs xs = 0"
  by (simp add: landmark_diff_def ratio_identical)

lemma get_opcodes_identical:
  "xs \<noteq> [] \<Longrightarrow> get_opcodes xs xs = [(''equal'', 0, length xs, 0, length xs)]"
  by (simp add: get_opcodes_def get_matching_blocks_identical Let_def)

lemma skeleton_diff_identical: "skeleton_diff xs xs = 0"
  by (cases "xs = []") (simp_all add: skeleton_diff_def get_opcodes_identical score_step_def)

lemma diff_score_identical: "diff_score d d = 0"
  by (simp add: diff_score_def landmark_diff_identical skeleton_diff_identical)

lemma chain_b_popular: "chain_b (replicate 300 x) x = None"
proof -
  have "[j \<leftarrow> [0..<300]. replicate 300 x ! j = x] = [0..<300]"
    by (simp add: filter_id_conv)
  then show ?thesis
    by (simp add: chain_b_def purge_popular_def fold_b2j_add_eq Let_def)
qed

text \<open>
  Claim C1. For every document the combined score of the document against itself is
  exactly 0; so are \<open>landmark_diff\<close> and \<open>skeleton_diff\<close> of any sequence against itself,
  whatever its length and however often its elements repeat (also when the popularity
  heuristic purges elements from the index, as in \<open>chain_b_popular\<close>).
\<close>

theorem identity:
  "diff_score d d = 0 \<and> landmark_diff xs xs = 0 \<and> skeleton_diff ps ps = 0"
  using diff_score_identical landmark_diff_identical skeleton_diff_identical by blast

theorem identity_witness:
  "diff_score doc_a doc_a = 0
   \<and> landmark_diff (replicate 300 ''section'') (replicate 300 ''section'') = 0"
  using identity[of doc_a "replicate 300 ''section''"] by blast


end
